theory Spec2Isabelle
  imports Main "HOL-Library.Word" "HOL-Library.Sublist"
begin

section \<open>Room identifier codec (app/lib/room.ts, app/lib/webrtc.ts)\<close>

text \<open>
  Strings are \<open>string\<close>; a \<open>char\<close> stands for one UTF-16 code unit below 256, read
  through \<open>of_char\<close>. Random bytes are 8-bit words, as the elements of a
  \<^verbatim>\<open>Uint8Array\<close> are.
\<close>

type_synonym u8 = "8 word"

text \<open>
  \<^verbatim>\<open>ROOM_ID_REGEX = /^[A-Z0-9]{6}$/\<close>. The class \<^verbatim>\<open>[A-Z0-9]\<close> is two ranges of code
  units; \<^verbatim>\<open>{6}\<close> consumes exactly six members of the class; \<^verbatim>\<open>^\<close> and \<^verbatim>\<open>$\<close> (no
  multiline flag) anchor the match to the start and the end of the input.
\<close>

definition class_A_Z_0_9 :: "char \<Rightarrow> bool" where
  "class_A_Z_0_9 c =
     (let n = (of_char c :: nat) in (65 \<le> n \<and> n \<le> 90) \<or> (48 \<le> n \<and> n \<le> 57))"

fun match_repeat :: "(char \<Rightarrow> bool) \<Rightarrow> nat \<Rightarrow> string \<Rightarrow> string option" where
  "match_repeat cls 0 s = Some s"
| "match_repeat cls (Suc n) [] = None"
| "match_repeat cls (Suc n) (c # cs) = (if cls c then match_repeat cls n cs else None)"

definition ROOM_ID_REGEX_test :: "string \<Rightarrow> bool" where
  "ROOM_ID_REGEX_test s = (match_repeat class_A_Z_0_9 6 s = Some [])"

definition isValidRoomId :: "string \<Rightarrow> bool" where
  "isValidRoomId roomId = ROOM_ID_REGEX_test roomId"

definition ROOM_ALPHABET :: string where
  "ROOM_ALPHABET = ''ABCDEFGHJKLMNPQRSTUVWXYZ0123456789''"

text \<open>
  \<^verbatim>\<open>generateRoomId\<close>: \<open>bytes\<close> is the \<^verbatim>\<open>Uint8Array(6)\<close> after
  \<^verbatim>\<open>crypto.getRandomValues\<close> filled it, indexed \<open>0..5\<close>; the loop appends one symbol per
  index.
\<close>

definition generateRoomId :: "(nat \<Rightarrow> u8) \<Rightarrow> string" where
  "generateRoomId bytes =
     foldl (\<lambda>result i. result @ [ROOM_ALPHABET ! (unat (bytes i) mod length ROOM_ALPHABET)])
       [] [0..<6]"

text \<open>
  \<^verbatim>\<open>String.prototype.toUpperCase\<close>, which the phone client applies to the typed room
  code, on the code units the model has: the letters \<open>a..z\<close> move to \<open>A..Z\<close>, every
  other unit stays.
\<close>

definition toUpperCase :: "string \<Rightarrow> string" where
  "toUpperCase s =
     map (\<lambda>c. if 97 \<le> (of_char c :: nat) \<and> (of_char c :: nat) \<le> 122
              then char_of ((of_char c :: nat) - 32) else c) s"

text \<open>
  The validator as the specification words it: exactly six characters of the 34-symbol
  alphabet, after normalisation to upper case. It is compared with \<open>isValidRoomId\<close>
  below.
\<close>

definition validate_spec :: "string \<Rightarrow> bool" where
  "validate_spec candidate =
     (length (toUpperCase candidate) = 6 \<and> set (toUpperCase candidate) \<subseteq> set ROOM_ALPHABET)"

text \<open>The 256 equally likely values of one random byte.\<close>

definition byte_values :: "u8 list" where
  "byte_values = map of_nat [0..<256]"

section \<open>Signaling relay (app/api/signaling)\<close>

subsection \<open>JSON values and the key-value store\<close>

datatype json =
    JNull
  | JBool bool
  | JNum int
  | JStr string
  | JArr "json list"
  | JObj "(string \<times> json) list"

text \<open>JavaScript's truthiness of a value; \<open>None\<close> is \<^verbatim>\<open>null\<close>/\<^verbatim>\<open>undefined\<close>.\<close>

fun truthy :: "json \<Rightarrow> bool" where
  "truthy JNull = False"
| "truthy (JBool b) = b"
| "truthy (JNum n) = (n \<noteq> 0)"
| "truthy (JStr s) = (s \<noteq> [])"
| "truthy (JArr xs) = True"
| "truthy (JObj fs) = True"

definition truthy_opt :: "json option \<Rightarrow> bool" where
  "truthy_opt v = (case v of None \<Rightarrow> False | Some j \<Rightarrow> truthy j)"

text \<open>\<^verbatim>\<open>typeof v === "object"\<close>.\<close>

fun typeof_object :: "json \<Rightarrow> bool" where
  "typeof_object JNull = True"
| "typeof_object (JArr xs) = True"
| "typeof_object (JObj fs) = True"
| "typeof_object v = False"

datatype exn = SyntaxError | TypeError

text \<open>
  Reading a property: \<^verbatim>\<open>null.k\<close> throws, an object yields the field
  (\<open>None\<close> is \<^verbatim>\<open>undefined\<close>), every other value has none of the properties the handlers
  read.
\<close>

fun get_prop :: "json \<Rightarrow> string \<Rightarrow> exn + json option" where
  "get_prop JNull k = Inl TypeError"
| "get_prop (JObj fs) k = Inr (map_of fs k)"
| "get_prop v k = Inr None"

text \<open>
  The external store (\<^verbatim>\<open>@vercel/kv\<close>), of which the handlers use \<^verbatim>\<open>get(key)\<close> and
  \<^verbatim>\<open>set(key, value, {ex: seconds})\<close>: every entry carries the time, in seconds, at which
  it expires; \<open>now\<close> is the time of the request. \<open>kv_get\<close> is a read: it hands the store
  back as it was.
\<close>

type_synonym kv_store = "string \<Rightarrow> (json \<times> nat) option"

definition kv_get :: "nat \<Rightarrow> string \<Rightarrow> kv_store \<Rightarrow> json option \<times> kv_store" where
  "kv_get now key kv =
     ((case kv key of
         None \<Rightarrow> None
       | Some (v, expires) \<Rightarrow> if now < expires then Some v else None), kv)"

definition kv_set :: "nat \<Rightarrow> string \<Rightarrow> json \<Rightarrow> nat \<Rightarrow> kv_store \<Rightarrow> kv_store" where
  "kv_set now key v ex kv = kv(key \<mapsto> (v, now + ex))"

definition ROOM_TTL_SECONDS :: nat where
  "ROOM_TTL_SECONDS = 300"

definition existsKey_of :: "string \<Rightarrow> string" where
  "existsKey_of roomId = ''room:'' @ roomId @ '':exists''"

text \<open>The room has a live \<open>exists\<close> marker: what \<^verbatim>\<open>await kv.get(existsKey)\<close> tests.\<close>

definition live :: "nat \<Rightarrow> kv_store \<Rightarrow> string \<Rightarrow> bool" where
  "live now kv roomId = truthy_opt (fst (kv_get now (existsKey_of roomId) kv))"

text \<open>
  A handler's result: \<^verbatim>\<open>new Response(body, {status})\<close> or \<^verbatim>\<open>Response.json(value)\<close>;
  \<open>Inl\<close> is an exception that leaves the handler.
\<close>

datatype response = Response string nat | Response_json json

subsection \<open>create/route.ts: POST\<close>

text \<open>
  \<open>rnd k\<close> is the byte array of the \<open>k\<close>-th call of \<^verbatim>\<open>generateRoomId\<close> in the request
  (\<open>k = 0\<close> before the loop, \<open>k = attempt\<close> inside it). The loop tests
  \<^verbatim>\<open>(await kv.get(existsKey)) && attempt < 5\<close>, where \<^verbatim>\<open>existsKey\<close> is the constant bound
  before the loop.
\<close>

function create_loop ::
  "nat \<Rightarrow> (nat \<Rightarrow> nat \<Rightarrow> u8) \<Rightarrow> string \<Rightarrow> string \<Rightarrow> nat \<Rightarrow> kv_store \<Rightarrow> string \<times> kv_store" where
  "create_loop now rnd existsKey roomId attempt kv =
     (if truthy_opt (fst (kv_get now existsKey kv)) \<and> attempt < 5
      then create_loop now rnd existsKey (generateRoomId (rnd (attempt + 1))) (attempt + 1)
             (snd (kv_get now existsKey kv))
      else (roomId, snd (kv_get now existsKey kv)))"
  by pat_completeness auto
termination
  by (relation "measure (\<lambda>(now, rnd, existsKey, roomId, attempt, kv). 5 - attempt)") auto

definition POST_create :: "nat \<Rightarrow> (nat \<Rightarrow> nat \<Rightarrow> u8) \<Rightarrow> kv_store \<Rightarrow> response \<times> kv_store" where
  "POST_create now rnd kv =
     (let roomId0 = generateRoomId (rnd 0);
          existsKey = ''room:'' @ roomId0 @ '':exists'';
          (roomId, kv1) = create_loop now rnd existsKey roomId0 0 kv;
          kv2 = kv_set now (''room:'' @ roomId @ '':exists'') (JStr ''1'') ROOM_TTL_SECONDS kv1
      in (Response_json (JObj [(''roomId'', JStr roomId)]), kv2))"

text \<open>
  \<open>createRoom\<close> as the specification words it: the marker of the \<^emph>\<open>current\<close> candidate
  decides each retry. \<open>POST_create\<close> is compared with it below.
\<close>

function createRoom_spec_loop ::
  "nat \<Rightarrow> (nat \<Rightarrow> nat \<Rightarrow> u8) \<Rightarrow> kv_store \<Rightarrow> string \<Rightarrow> nat \<Rightarrow> string" where
  "createRoom_spec_loop now rnd kv candidate attempt =
     (if live now kv candidate \<and> attempt < 5
      then createRoom_spec_loop now rnd kv (generateRoomId (rnd (attempt + 1))) (attempt + 1)
      else candidate)"
  by pat_completeness auto
termination
  by (relation "measure (\<lambda>(now, rnd, kv, candidate, attempt). 5 - attempt)") auto

definition createRoom_spec :: "nat \<Rightarrow> (nat \<Rightarrow> nat \<Rightarrow> u8) \<Rightarrow> kv_store \<Rightarrow> string" where
  "createRoom_spec now rnd kv = createRoom_spec_loop now rnd kv (generateRoomId (rnd 0)) 0"

subsection \<open>[roomId]/route.ts: POST\<close>

text \<open>
  \<open>body\<close> is what \<^verbatim>\<open>await request.json()\<close> yields (\<open>None\<close>: it rejects), \<open>stringify\<close> is
  \<^verbatim>\<open>JSON.stringify\<close>.
\<close>

definition POST_signal ::
  "(json \<Rightarrow> string) \<Rightarrow> nat \<Rightarrow> string \<Rightarrow> json option \<Rightarrow> kv_store \<Rightarrow> (exn + response) \<times> kv_store" where
  "POST_signal stringify now roomId body kv =
     (if \<not> isValidRoomId roomId then (Inr (Response ''Invalid room'' 400), kv)
      else
        let existsKey = ''room:'' @ roomId @ '':exists'';
            (exists, kv1) = kv_get now existsKey kv
        in if \<not> truthy_opt exists then (Inr (Response ''Room not found'' 404), kv1)
           else
             (case body of
                None \<Rightarrow> (Inl SyntaxError, kv1)
              | Some b \<Rightarrow>
                 (case get_prop b ''type'' of
                    Inl e \<Rightarrow> (Inl e, kv1)
                  | Inr ty \<Rightarrow>
                     if ty \<noteq> Some (JStr ''offer'') \<and> ty \<noteq> Some (JStr ''answer'')
                     then (Inr (Response ''Invalid payload'' 400), kv1)
                     else
                       (case get_prop b ''data'' of
                          Inl e \<Rightarrow> (Inl e, kv1)
                        | Inr None \<Rightarrow> (Inr (Response ''Invalid payload'' 400), kv1)
                        | Inr (Some d) \<Rightarrow>
                           if \<not> truthy d \<or> \<not> typeof_object d
                           then (Inr (Response ''Invalid payload'' 400), kv1)
                           else
                             let key = ''room:'' @ roomId @ '':'' @
                                        (if ty = Some (JStr ''offer'') then ''offer'' else ''answer'');
                                 kv2 = kv_set now key (JStr (stringify d)) ROOM_TTL_SECONDS kv1;
                                 kv3 = kv_set now existsKey (JStr ''1'') ROOM_TTL_SECONDS kv2
                             in (Inr (Response_json (JObj [(''ok'', JBool True)])), kv3)))))"

text \<open>
  The typed request the clients send: \<^verbatim>\<open>SignalPostBody = {type, data}\<close> with
  \<^verbatim>\<open>type: "offer" | "answer"\<close> and \<^verbatim>\<open>data: RTCSessionDescriptionInit\<close>, posted as
  \<^verbatim>\<open>JSON.stringify(payload)\<close> and read back by \<^verbatim>\<open>request.json()\<close>.
\<close>

datatype SignalType = Offer | Answer

record RTCSessionDescriptionInit =
  sdp_type :: string
  sdp :: string

fun SignalType_name :: "SignalType \<Rightarrow> string" where
  "SignalType_name Offer = ''offer''"
| "SignalType_name Answer = ''answer''"

definition description_json :: "RTCSessionDescriptionInit \<Rightarrow> json" where
  "description_json d = JObj [(''type'', JStr (sdp_type d)), (''sdp'', JStr (sdp d))]"

definition SignalPostBody_json :: "SignalType \<Rightarrow> RTCSessionDescriptionInit \<Rightarrow> json" where
  "SignalPostBody_json ty d = JObj [(''type'', JStr (SignalType_name ty)), (''data'', description_json d)]"

definition publish ::
  "(json \<Rightarrow> string) \<Rightarrow> nat \<Rightarrow> string \<Rightarrow> SignalType \<Rightarrow> RTCSessionDescriptionInit \<Rightarrow> kv_store
     \<Rightarrow> (exn + response) \<times> kv_store" where
  "publish stringify now roomId ty d kv =
     POST_signal stringify now roomId (Some (SignalPostBody_json ty d)) kv"

subsection \<open>The two poll handlers\<close>

text \<open>
  The repository holds two \<^verbatim>\<open>GET\<close> handlers for polling. \<open>parse\<close> is \<^verbatim>\<open>JSON.parse\<close> on a
  string (\<open>None\<close>: it throws \<^verbatim>\<open>SyntaxError\<close>); \<open>toString\<close> is the string conversion
  \<^verbatim>\<open>JSON.parse\<close> applies to an argument that is not a string.

  The first (src/unnamed/part_000) reads through \<^verbatim>\<open>safeParse\<close> and falls back to the
  legacy combined record. \<^verbatim>\<open>null\<close> is \<open>JNull\<close>.
\<close>

definition safeParse :: "(string \<Rightarrow> json option) \<Rightarrow> json option \<Rightarrow> json" where
  "safeParse parse value =
     (case value of
        None \<Rightarrow> JNull
      | Some v \<Rightarrow>
         if \<not> truthy v then JNull
         else (case v of
                 JStr s \<Rightarrow> (case parse s of Some j \<Rightarrow> j | None \<Rightarrow> JNull)
               | JArr xs \<Rightarrow> v
               | JObj fs \<Rightarrow> v
               | _ \<Rightarrow> JNull))"

text \<open>\<^verbatim>\<open>legacy?.k\<close>: \<^verbatim>\<open>undefined\<close> when \<open>legacy\<close> is \<^verbatim>\<open>null\<close>, the property otherwise.\<close>

definition optional_prop :: "json \<Rightarrow> string \<Rightarrow> json option" where
  "optional_prop legacy k =
     (if legacy = JNull then None
      else (case get_prop legacy k of Inl e \<Rightarrow> None | Inr v \<Rightarrow> v))"

text \<open>\<^verbatim>\<open>a ?? b ?? null\<close> with \<open>a\<close> a value or \<^verbatim>\<open>null\<close> and \<open>b\<close> possibly \<^verbatim>\<open>undefined\<close>.\<close>

definition coalesce :: "json \<Rightarrow> json option \<Rightarrow> json" where
  "coalesce a b = (if a \<noteq> JNull then a else (case b of None \<Rightarrow> JNull | Some v \<Rightarrow> v))"

definition GET_safeParse ::
  "(string \<Rightarrow> json option) \<Rightarrow> nat \<Rightarrow> string \<Rightarrow> kv_store \<Rightarrow> (exn + response) \<times> kv_store" where
  "GET_safeParse parse now roomId kv =
     (if \<not> isValidRoomId roomId then (Inr (Response ''Invalid room'' 400), kv)
      else
        let existsKey = ''room:'' @ roomId @ '':exists'';
            (exists, kv1) = kv_get now existsKey kv
        in if \<not> truthy_opt exists then (Inr (Response ''Room not found'' 404), kv1)
           else
             let (offerValue, kv2) = kv_get now (''room:'' @ roomId @ '':offer'') kv1;
                 (answerValue, kv3) = kv_get now (''room:'' @ roomId @ '':answer'') kv2;
                 (legacyRoom, kv4) = kv_get now (''room:'' @ roomId) kv3;
                 legacy = safeParse parse legacyRoom;
                 offer = coalesce (safeParse parse offerValue) (optional_prop legacy ''offer'');
                 answer = coalesce (safeParse parse answerValue) (optional_prop legacy ''answer'')
             in (Inr (Response_json (JObj [(''offer'', offer), (''answer'', answer)])), kv4))"

text \<open>
  The second (the handler that follows \<^verbatim>\<open>POST\<close> in src/app/api/signaling/create/route.ts)
  evaluates \<^verbatim>\<open>offer ? JSON.parse(offer) : null\<close> with no handler around it.
\<close>

definition JSON_parse_value ::
  "(string \<Rightarrow> json option) \<Rightarrow> (json \<Rightarrow> string) \<Rightarrow> json \<Rightarrow> exn + json" where
  "JSON_parse_value parse toString v =
     (case parse (case v of JStr s \<Rightarrow> s | _ \<Rightarrow> toString v) of
        None \<Rightarrow> Inl SyntaxError
      | Some j \<Rightarrow> Inr j)"

definition parse_or_null ::
  "(string \<Rightarrow> json option) \<Rightarrow> (json \<Rightarrow> string) \<Rightarrow> json option \<Rightarrow> exn + json" where
  "parse_or_null parse toString value =
     (case value of
        None \<Rightarrow> Inr JNull
      | Some v \<Rightarrow> if truthy v then JSON_parse_value parse toString v else Inr JNull)"

definition GET_JSON_parse ::
  "(string \<Rightarrow> json option) \<Rightarrow> (json \<Rightarrow> string) \<Rightarrow> nat \<Rightarrow> string \<Rightarrow> kv_store
     \<Rightarrow> (exn + response) \<times> kv_store" where
  "GET_JSON_parse parse toString now roomId kv =
     (if \<not> isValidRoomId roomId then (Inr (Response ''Invalid room'' 400), kv)
      else
        let existsKey = ''room:'' @ roomId @ '':exists'';
            (exists, kv1) = kv_get now existsKey kv
        in if \<not> truthy_opt exists then (Inr (Response ''Room not found'' 404), kv1)
           else
             let (offer, kv2) = kv_get now (''room:'' @ roomId @ '':offer'') kv1;
                 (answer, kv3) = kv_get now (''room:'' @ roomId @ '':answer'') kv2
             in (case parse_or_null parse toString offer of
                   Inl e \<Rightarrow> (Inl e, kv3)
                 | Inr offer' \<Rightarrow>
                    (case parse_or_null parse toString answer of
                       Inl e \<Rightarrow> (Inl e, kv3)
                     | Inr answer' \<Rightarrow>
                        (Inr (Response_json (JObj [(''offer'', offer'), (''answer'', answer')])), kv3))))"

section \<open>Chunked transfer (app/phone/PhoneClient.tsx, app/computer/page.tsx)\<close>

subsection \<open>Messages on the data channel\<close>

text \<open>
  A message's \<^verbatim>\<open>data\<close> is a string or an \<^verbatim>\<open>ArrayBuffer\<close>. A string is modelled by what
  \<^verbatim>\<open>JSON.parse\<close> and the handler's reads of \<^verbatim>\<open>message.type\<close> make of it: \<open>None\<close> when
  they throw, one of the three tagged shapes of the handler's type annotation, or
  \<open>OtherMsg\<close> for a value that parses and carries none of the three tags. The sender's
  \<^verbatim>\<open>JSON.stringify\<close> of a tagged object is the text that parses to it.
\<close>

type_synonym bytes = "u8 list"

datatype control = Meta string nat string | Done | ErrorMsg string | OtherMsg

datatype message_data = Text "control option" | Binary bytes

text \<open>The two pages' \<^verbatim>\<open>Status\<close> types, in one.\<close>

datatype status =
    S_idle | S_starting | S_waiting | S_connecting | S_ready | S_sending | S_receiving
  | S_completed | S_error | S_expired

text \<open>
  React state (\<^verbatim>\<open>useState\<close>) and refs (\<^verbatim>\<open>useRef\<close>) of a page are the fields of one
  record, and a handler returns the record with the fields it sets. A ref is read at the
  moment of the call. A state variable read inside a \<^verbatim>\<open>useCallback\<close> is the value of the
  render that created the callback: where a handler reads one, the record has a field for
  the value the callback closed over. \<open>status\<close> and \<open>error\<close> are common to both pages.
\<close>

record page =
  status :: status
  error :: "string option"

subsection \<open>The sender: sendFile\<close>

record File =
  file_name :: string
  file_bytes :: bytes
  file_type :: string

datatype readyState = RS_connecting | RS_open | RS_closing | RS_closed

text \<open>
  An \<^verbatim>\<open>RTCDataChannel\<close> as the sender sees it: its \<^verbatim>\<open>readyState\<close> and, in order, every
  message handed to \<^verbatim>\<open>send\<close>.
\<close>

record channel =
  readyState :: readyState
  sent :: "message_data list"

record sender = page +
  bytesSent :: nat
  selectedFile :: "File option"
  channelRef :: "channel option"

definition CHUNK_SIZE :: nat where
  "CHUNK_SIZE = 256 * 1024"

definition channel_send :: "channel \<Rightarrow> message_data \<Rightarrow> channel" where
  "channel_send ch m = ch\<lparr>sent := sent ch @ [m]\<rparr>"

text \<open>
  The variables of the \<^verbatim>\<open>while (offset < selectedFile.size)\<close> loop. One pass slices
  \<^verbatim>\<open>selectedFile.slice(offset, offset + CHUNK_SIZE)\<close> (a slice stops at the end of the
  file), sends the buffer, and advances \<open>offset\<close> by \<^verbatim>\<open>buffer.byteLength\<close>. The two
  awaits of a pass (\<^verbatim>\<open>waitForBufferedLow\<close>, modelled below, and the yield
  to the event loop after every eighth frame) suspend the loop and change none of its
  variables; the channel stays open while the loop runs.
\<close>

record send_loop =
  offset :: nat
  chunkCount :: nat
  loop_channel :: channel
  loop_bytesSent :: nat

definition loop_body :: "File \<Rightarrow> send_loop \<Rightarrow> send_loop" where
  "loop_body f l =
     (let buffer = take CHUNK_SIZE (drop (offset l) (file_bytes f));
          ch = channel_send (loop_channel l) (Binary buffer);
          offset' = offset l + length buffer
      in l\<lparr>offset := offset', chunkCount := chunkCount l + 1, loop_channel := ch,
            loop_bytesSent := offset'\<rparr>)"

function sendLoop :: "File \<Rightarrow> send_loop \<Rightarrow> send_loop" where
  "sendLoop f l = (if offset l < length (file_bytes f) then sendLoop f (loop_body f l) else l)"
  by pat_completeness auto
termination
  by (relation "measure (\<lambda>(f, l). length (file_bytes f) - offset l)")
    (auto simp: loop_body_def CHUNK_SIZE_def Let_def)

text \<open>The loop's successive states: before the first pass and after every pass.\<close>

function sendLoop_states :: "File \<Rightarrow> send_loop \<Rightarrow> send_loop list" where
  "sendLoop_states f l =
     l # (if offset l < length (file_bytes f) then sendLoop_states f (loop_body f l) else [])"
  by pat_completeness auto
termination
  by (relation "measure (\<lambda>(f, l). length (file_bytes f) - offset l)")
    (auto simp: loop_body_def CHUNK_SIZE_def Let_def)

definition sendFile :: "sender \<Rightarrow> sender" where
  "sendFile s =
     (case (selectedFile s, channelRef s) of
        (Some f, Some channel) \<Rightarrow>
          if readyState channel \<noteq> RS_open
          then s\<lparr>error := Some ''Connection not ready yet. Please try again.'', status := S_error\<rparr>
          else
            let ch1 = channel_send channel
                        (Text (Some (Meta (file_name f) (length (file_bytes f))
                           (if file_type f = [] then ''application/octet-stream''
                            else file_type f))));
                l = sendLoop f
                      \<lparr>offset = 0, chunkCount = 0, loop_channel = ch1, loop_bytesSent = 0\<rparr>;
                ch2 = channel_send (loop_channel l) (Text (Some Done));
                ch3 = ch2\<lparr>readyState := RS_closing\<rparr>
            in s\<lparr>status := S_completed, bytesSent := loop_bytesSent l, channelRef := Some ch3\<rparr>
      | _ \<Rightarrow> s\<lparr>error := Some ''Choose a file before sending.'', status := S_error\<rparr>)"

text \<open>What a sender that is ready, with an open channel that has sent nothing, emits for a file.\<close>

definition ready_sender :: "File \<Rightarrow> sender" where
  "ready_sender f =
     \<lparr>status = S_ready, error = None, bytesSent = 0, selectedFile = Some f,
      channelRef = Some \<lparr>readyState = RS_open, sent = []\<rparr>\<rparr>"

definition emitted :: "File \<Rightarrow> message_data list" where
  "emitted f = (case channelRef (sendFile (ready_sender f)) of None \<Rightarrow> [] | Some ch \<Rightarrow> sent ch)"

subsection \<open>The receiver: handleDataMessage and handleReceiveDone\<close>

record fileMeta =
  meta_name :: string
  meta_size :: nat
  meta_mime :: string

text \<open>
  A \<^verbatim>\<open>FileSystemWritableFileStream\<close>: the bytes written to it, in order, and whether it
  has been closed. \<^verbatim>\<open>write\<close> and \<^verbatim>\<open>close\<close> on a closed stream reject.
\<close>

record writable =
  written :: bytes
  closed :: bool

record blob =
  blob_parts :: bytes
  blob_type :: string

text \<open>
  \<open>showSaveFilePicker\<close> says whether \<^verbatim>\<open>window.showSaveFilePicker\<close> is defined.
  The handler is started for every message without waiting for the handler of the message
  before it (\<^verbatim>\<open>void handleDataMessage(message)\<close>), and its \<^verbatim>\<open>meta\<close> branch suspends at
  \<^verbatim>\<open>await showSaveFilePicker(...)\<close> until the user answers the dialog: \<open>pickers\<close> holds,
  oldest first, the \<^verbatim>\<open>message.size\<close> of every \<^verbatim>\<open>meta\<close> handler suspended there. The
  awaits of \<^verbatim>\<open>write\<close> and \<^verbatim>\<open>close\<close> on the stream settle in the order of the calls and
  are taken in one step with them.

  \<^verbatim>\<open>handleReceiveDone\<close> is \<^verbatim>\<open>useCallback(..., [fileMeta])\<close>, \<^verbatim>\<open>handleDataMessage\<close> is
  \<^verbatim>\<open>useCallback(..., [handleReceiveDone])\<close>, and \<^verbatim>\<open>connect\<close>, which sets
  \<^verbatim>\<open>channel.onmessage\<close>, is \<^verbatim>\<open>useCallback(..., [handleDataMessage, startCountdown])\<close>. The
  handler of a channel is therefore the \<^verbatim>\<open>handleDataMessage\<close> of the render in which the
  \<^verbatim>\<open>connect\<close> that opened the channel was called, and the \<^verbatim>\<open>fileMeta\<close> that its
  \<^verbatim>\<open>handleReceiveDone\<close> reads is the \<^verbatim>\<open>fileMeta\<close> of that render: \<open>closure_fileMeta\<close>. It
  stays what it is for as long as the channel has this handler; for the \<^verbatim>\<open>connect\<close> called
  when the page is loaded it is \<^verbatim>\<open>null\<close>. \<open>fileMeta\<close> is the state variable, the one the
  page displays.
\<close>

record receiver = page +
  fileMeta :: "fileMeta option"
  bytesReceived :: nat
  downloadUrl :: "blob option"
  downloadName :: "string option"
  saveWarning :: "string option"
  chunksRef :: "bytes list"
  writableRef :: "writable option"
  showSaveFilePicker :: bool
  pickers :: "nat list"
  closure_fileMeta :: "fileMeta option"

text \<open>
  \<^verbatim>\<open>cleanup\<close>, on the fields of the record. It also aborts the poll, closes the channel and
  the peer connection and clears the countdown (\<^verbatim>\<open>abortRef\<close>, \<^verbatim>\<open>channelRef\<close>, \<^verbatim>\<open>pcRef\<close>,
  \<^verbatim>\<open>countdownRef\<close>), and revokes the object URL of the render that created it; none of
  these is read by a message handler, which runs on every message handed to it.
\<close>

definition cleanup :: "receiver \<Rightarrow> receiver" where
  "cleanup r =
     r\<lparr>chunksRef := [], writableRef := None, downloadUrl := None, downloadName := None,
       bytesReceived := 0, fileMeta := None, saveWarning := None\<rparr>"

text \<open>\<^verbatim>\<open>connect\<close> up to its first \<^verbatim>\<open>await\<close> (the request that creates a room).\<close>

definition connect_begin :: "receiver \<Rightarrow> receiver" where
  "connect_begin r = r\<lparr>status := S_starting, error := None\<rparr>"

text \<open>
  The effect \<^verbatim>\<open>useEffect(..., [cleanup, connect])\<close> calls \<^verbatim>\<open>connect()\<close> and returns the
  function that calls \<^verbatim>\<open>cleanup()\<close> and clears \<^verbatim>\<open>startedRef\<close>. When a render gives \<^verbatim>\<open>connect\<close>
  or \<^verbatim>\<open>cleanup\<close> a new identity, React runs the returned function and then the effect
  again, which finds \<^verbatim>\<open>startedRef\<close> cleared and calls \<^verbatim>\<open>connect()\<close>. That happens after a
  handler has set \<^verbatim>\<open>fileMeta\<close> to a new object (\<^verbatim>\<open>handleReceiveDone\<close>, and with it
  \<^verbatim>\<open>handleDataMessage\<close> and \<^verbatim>\<open>connect\<close>, are created anew) and after a handler has set
  \<^verbatim>\<open>downloadUrl\<close> to a new URL (\<^verbatim>\<open>cleanup\<close> is \<^verbatim>\<open>useCallback(..., [downloadUrl])\<close>). The
  state that \<^verbatim>\<open>cleanup\<close> sets back to \<^verbatim>\<open>null\<close> changes the identities once more, and the
  effect runs a second time, to the same record. The render and the effect follow the
  statements of the handler up to its first \<^verbatim>\<open>await\<close> and are taken in one step with
  them. What the new \<^verbatim>\<open>connect\<close> does after its first \<^verbatim>\<open>await\<close> (a room, a peer connection
  and a channel of its own, and the status it reports as it goes) is no step of the
  messages of this channel.
\<close>

definition effect_rerun :: "receiver \<Rightarrow> receiver" where
  "effect_rerun r = connect_begin (cleanup r)"

text \<open>
  \<^verbatim>\<open>handleReceiveDone\<close>: \<^verbatim>\<open>close\<close> on a closed stream rejects, and the rejection leaves
  through \<^verbatim>\<open>await handleReceiveDone()\<close>. The Blob is built from the in-memory sequence
  when the closure has a \<^verbatim>\<open>fileMeta\<close>; \<^verbatim>\<open>setDownloadUrl(url)\<close> then re-runs the effect.
\<close>

definition handleReceiveDone :: "receiver \<Rightarrow> exn + receiver" where
  "handleReceiveDone r =
     (case writableRef r of
        Some w \<Rightarrow>
          if closed w then Inl TypeError
          else Inr (r\<lparr>writableRef := Some (w\<lparr>closed := True\<rparr>), status := S_completed\<rparr>)
      | None \<Rightarrow>
          (case closure_fileMeta r of
             Some m \<Rightarrow>
               if length (chunksRef r) > 0
               then Inr (effect_rerun
                           (r\<lparr>downloadUrl := Some \<lparr>blob_parts = concat (chunksRef r),
                                                   blob_type = meta_mime m\<rparr>,
                              downloadName := Some (meta_name m),
                              status := S_completed\<rparr>))
               else Inr (r\<lparr>status := S_completed\<rparr>)
           | None \<Rightarrow> Inr (r\<lparr>status := S_completed\<rparr>)))"

text \<open>
  \<^verbatim>\<open>handleDataMessage\<close>. Its \<^verbatim>\<open>meta\<close> branch sets \<^verbatim>\<open>fileMeta\<close> and the status and, when
  there is no stream and the browser has the dialog, suspends at the dialog; the effect
  then runs again. A text message that \<^verbatim>\<open>JSON.parse\<close> rejects is \<open>Text None\<close>.
\<close>

definition handleDataMessage :: "receiver \<Rightarrow> message_data \<Rightarrow> receiver" where
  "handleDataMessage r data =
     (case data of
        Text None \<Rightarrow>
          r\<lparr>error := Some ''Unable to parse incoming message.'', status := S_error\<rparr>
      | Text (Some (Meta name size' mime)) \<Rightarrow>
          let r1 = r\<lparr>fileMeta := Some \<lparr>meta_name = name, meta_size = size', meta_mime = mime\<rparr>,
                     status := S_receiving\<rparr>;
              r2 = (if writableRef r1 = None \<and> showSaveFilePicker r1
                    then r1\<lparr>pickers := pickers r1 @ [size']\<rparr>
                    else r1)
          in effect_rerun r2
      | Text (Some Done) \<Rightarrow>
          (case handleReceiveDone r of
             Inr r' \<Rightarrow> r'
           | Inl e \<Rightarrow> r\<lparr>error := Some ''Unable to parse incoming message.'', status := S_error\<rparr>)
      | Text (Some (ErrorMsg message)) \<Rightarrow> r\<lparr>error := Some message, status := S_error\<rparr>
      | Text (Some OtherMsg) \<Rightarrow> r
      | Binary chunk \<Rightarrow>
          (case writableRef r of
             Some w \<Rightarrow>
               if closed w then r
               else r\<lparr>writableRef := Some (w\<lparr>written := written w @ chunk\<rparr>),
                      bytesReceived := bytesReceived r + length chunk\<rparr>
           | None \<Rightarrow>
               r\<lparr>chunksRef := chunksRef r @ [chunk],
                  bytesReceived := bytesReceived r + length chunk\<rparr>))"

text \<open>
  The oldest suspended \<^verbatim>\<open>meta\<close> handler resumes: with a stream
  (\<^verbatim>\<open>writableRef.current = await handle.createWritable()\<close>) or in its \<^verbatim>\<open>catch\<close>.
\<close>

definition picker_settled :: "receiver \<Rightarrow> bool \<Rightarrow> receiver" where
  "picker_settled r ok =
     (case pickers r of
        [] \<Rightarrow> r
      | size' # rest \<Rightarrow>
          if ok then r\<lparr>pickers := rest, writableRef := Some \<lparr>written = [], closed = False\<rparr>\<rparr>
          else if size' > 500 * 1024 * 1024
          then r\<lparr>pickers := rest,
                 saveWarning :=
                   Some ''Large file detected. Saving will complete after transfer finishes.''\<rparr>
          else r\<lparr>pickers := rest\<rparr>)"

datatype event = Message message_data | PickerSettled bool

definition receiver_step :: "receiver \<Rightarrow> event \<Rightarrow> receiver" where
  "receiver_step r ev =
     (case ev of Message data \<Rightarrow> handleDataMessage r data | PickerSettled ok \<Rightarrow> picker_settled r ok)"

definition receiver_run :: "receiver \<Rightarrow> event list \<Rightarrow> receiver" where
  "receiver_run r evs = foldl receiver_step r evs"

fun messages_of :: "event list \<Rightarrow> message_data list" where
  "messages_of [] = []"
| "messages_of (Message data # evs) = data # messages_of evs"
| "messages_of (PickerSettled ok # evs) = messages_of evs"

text \<open>
  The receiving page when the channel of the \<^verbatim>\<open>connect\<close> called at page load opens:
  nothing received, nothing pending, and a handler that closed over \<^verbatim>\<open>fileMeta = null\<close>.
\<close>

definition waiting_receiver :: "bool \<Rightarrow> receiver" where
  "waiting_receiver picker =
     \<lparr>status = S_waiting, error = None, fileMeta = None, bytesReceived = 0, downloadUrl = None,
      downloadName = None, saveWarning = None, chunksRef = [], writableRef = None,
      showSaveFilePicker = picker, pickers = [], closure_fileMeta = None\<rparr>"

text \<open>
  The events of a transfer session at the receiver: the messages the sender emits for
  the file, in order, and, when the save dialog is answered, its settlement after the
  first \<open>n\<close> of them (\<open>ok\<close>: with a stream).
\<close>

definition session_events :: "File \<Rightarrow> (nat \<times> bool) option \<Rightarrow> event list" where
  "session_events f dialog =
     (case dialog of
        None \<Rightarrow> map Message (emitted f)
      | Some (n, ok) \<Rightarrow>
          take n (map Message (emitted f)) @ [PickerSettled ok] @ drop n (map Message (emitted f)))"

subsection \<open>Backpressure: waitForBufferedLow\<close>

definition BUFFERED_HIGH_WATER_MARK :: nat where
  "BUFFERED_HIGH_WATER_MARK = 16 * 1024 * 1024"

definition BUFFERED_LOW_WATER_MARK :: nat where
  "BUFFERED_LOW_WATER_MARK = 4 * 1024 * 1024"

text \<open>
  While \<^verbatim>\<open>waitForBufferedLow\<close> is suspended on its promise, the event loop runs three
  kinds of callbacks of that promise: the channel dispatches \<^verbatim>\<open>bufferedamountlow\<close>, the
  timer set by \<^verbatim>\<open>setTimeout(..., 2000)\<close> fires, the timer set by \<^verbatim>\<open>setInterval(..., 200)\<close>
  fires. \<open>BufferedAmountLow\<close> and \<open>IntervalFires\<close> carry the value of
  \<^verbatim>\<open>channel.bufferedAmount\<close> at that moment (the interval's callback reads it). Time is
  the order of the events; the delays are kept as the values of the timers.
\<close>

datatype wait_event = BufferedAmountLow nat | TimeoutFires | IntervalFires nat

text \<open>
  The promise's closure: whether \<^verbatim>\<open>onLow\<close> and the listener that clears the timeout are
  still registered (both are \<^verbatim>\<open>once\<close>), the armed timeout and interval with their
  delays, the variable \<^verbatim>\<open>resolved\<close>, and whether \<^verbatim>\<open>resolve()\<close> has been called.
\<close>

record wait_state =
  onLow_listening :: bool
  clearTimeout_listening :: bool
  timeoutId :: "nat option"
  intervalId :: "nat option"
  resolved :: bool
  settled :: bool

definition wait_begin :: wait_state where
  "wait_begin =
     \<lparr>onLow_listening = True, clearTimeout_listening = True, timeoutId = Some 2000,
      intervalId = None, resolved = False, settled = False\<rparr>"

definition onLow :: "wait_state \<Rightarrow> wait_state" where
  "onLow w = w\<lparr>onLow_listening := False, resolved := True, settled := True\<rparr>"

text \<open>
  One callback. On \<^verbatim>\<open>bufferedamountlow\<close> the registered listeners run in the order of
  their registration. A timer that is not armed does not fire.
\<close>

fun wait_step :: "wait_state \<Rightarrow> wait_event \<Rightarrow> wait_state" where
  "wait_step w (BufferedAmountLow amount) =
     (let w1 = (if onLow_listening w then onLow w else w)
      in if clearTimeout_listening w1
         then w1\<lparr>clearTimeout_listening := False, timeoutId := None\<rparr>
         else w1)"
| "wait_step w TimeoutFires =
     (case timeoutId w of
        None \<Rightarrow> w
      | Some ms \<Rightarrow>
          let w1 = w\<lparr>timeoutId := None, onLow_listening := False\<rparr>
          in if \<not> resolved w1 then w1\<lparr>intervalId := Some 200\<rparr> else w1)"
| "wait_step w (IntervalFires amount) =
     (case intervalId w of
        None \<Rightarrow> w
      | Some ms \<Rightarrow>
          if amount \<le> BUFFERED_LOW_WATER_MARK
          then w\<lparr>intervalId := None, settled := True\<rparr>
          else w)"

text \<open>
  The suspended promise against the events that follow: the event at which it settles
  and the events after it, or \<open>None\<close> when it does not settle.
\<close>

fun wait_run :: "wait_state \<Rightarrow> wait_event list \<Rightarrow> (wait_event \<times> wait_event list) option" where
  "wait_run w [] = None"
| "wait_run w (ev # evs) =
     (if settled (wait_step w ev) then Some (ev, evs) else wait_run (wait_step w ev) evs)"

text \<open>
  \<^verbatim>\<open>waitForBufferedLow\<close>: \<open>bufferedAmount\<close> is the value its first line reads. It returns at
  once, or after the event that settled the promise.
\<close>

datatype resume = Immediately nat | After wait_event

definition waitForBufferedLow ::
  "nat \<Rightarrow> wait_event list \<Rightarrow> (resume \<times> wait_event list) option" where
  "waitForBufferedLow bufferedAmount evs =
     (if bufferedAmount \<le> BUFFERED_HIGH_WATER_MARK then Some (Immediately bufferedAmount, evs)
      else (case wait_run wait_begin evs of
              None \<Rightarrow> None
            | Some (ev, rest) \<Rightarrow> Some (After ev, rest)))"

text \<open>
  The loop of \<^verbatim>\<open>sendFile\<close> with its wait: every pass first awaits
  \<^verbatim>\<open>waitForBufferedLow(channel)\<close> and then does what \<open>loop_body\<close> does. The environment
  gives, for each pass in turn, the counter's value at the start of the pass and the
  events that follow while the pass is suspended. The result is how each wait that
  returned did so, and the loop's variables where the run ends: after the last pass, at a
  wait that does not return, or where the environment ends.
\<close>

fun sendLoop_env ::
  "File \<Rightarrow> send_loop \<Rightarrow> (nat \<times> wait_event list) list \<Rightarrow> resume list \<times> send_loop" where
  "sendLoop_env f l [] = ([], l)"
| "sendLoop_env f l ((bufferedAmount, evs) # env) =
     (if offset l < length (file_bytes f)
      then (case waitForBufferedLow bufferedAmount evs of
              None \<Rightarrow> ([], l)
            | Some (res, rest) \<Rightarrow>
                (case sendLoop_env f (loop_body f l) env of
                   (rs, l') \<Rightarrow> (res # rs, l')))
      else ([], l))"


text \<open>The state of a wait whose timeout has fired: only the interval is left.\<close>

definition polling :: "wait_state \<Rightarrow> bool" where
  "polling w \<longleftrightarrow>
     \<not> onLow_listening w \<and> timeoutId w = None \<and> intervalId w = Some 200 \<and>
     \<not> resolved w \<and> \<not> settled w"


text \<open>The bytes carried by the binary frames of a message sequence.\<close>

fun payload_length :: "message_data list \<Rightarrow> nat" where
  "payload_length [] = 0"
| "payload_length (Binary chunk # ms) = length chunk + payload_length ms"
| "payload_length (Text t # ms) = payload_length ms"

text \<open>The receiver has no stream, or one that is still open.\<close>

definition sink_open :: "receiver \<Rightarrow> bool" where
  "sink_open r = (case writableRef r of None \<Rightarrow> True | Some w \<Rightarrow> \<not> closed w)"

section \<open>Properties of the room identifier codec\<close>

declare create_loop.simps [simp del] createRoom_spec_loop.simps [simp del]
declare sendLoop.simps [simp del] sendLoop_states.simps [simp del]

lemma class_codes:
  "map char_of ([65..<91] @ [48..<58] :: nat list) = ''ABCDEFGHIJKLMNOPQRSTUVWXYZ0123456789''"
  by code_simp

lemma class_members:
  "class_A_Z_0_9 c \<longleftrightarrow> c \<in> set ''ABCDEFGHIJKLMNOPQRSTUVWXYZ0123456789''"
proof
  assume "class_A_Z_0_9 c"
  then have "(of_char c :: nat) \<in> {65..<91} \<union> {48..<58}"
    by (auto simp: class_A_Z_0_9_def Let_def)
  then have "(of_char c :: nat) \<in> set ([65..<91] @ [48..<58])"
    unfolding set_append set_upt .
  then have "char_of (of_char c :: nat) \<in> set (map char_of ([65..<91] @ [48..<58] :: nat list))"
    unfolding set_map by (rule imageI)
  then show "c \<in> set ''ABCDEFGHIJKLMNOPQRSTUVWXYZ0123456789''"
    by (simp only: class_codes char_of_char)
next
  assume "c \<in> set ''ABCDEFGHIJKLMNOPQRSTUVWXYZ0123456789''"
  then show "class_A_Z_0_9 c"
    by (auto simp: class_A_Z_0_9_def Let_def)
qed

lemma match_repeat_iff:
  "match_repeat cls n s = Some [] \<longleftrightarrow> length s = n \<and> (\<forall>c \<in> set s. cls c)"
proof (induction n arbitrary: s)
  case 0
  then show ?case by auto
next
  case (Suc n)
  then show ?case by (cases s) auto
qed

text \<open>
  \<^bold>\<open>C3\<close>, as the specification states it: \<open>validate(candidate)\<close> is true exactly when the
  candidate, normalised to upper case, is six characters of the 34-symbol alphabet
  without \<open>I\<close> and \<open>O\<close>. The validator in the code accepts \<open>AIO000\<close>, which holds
  both excluded letters, and rejects \<open>abc123\<close>, which the normalisation would accept.
\<close>

theorem isValidRoomId_differs_from_validate_spec:
  "isValidRoomId ''AIO000'' \<and> \<not> validate_spec ''AIO000'' \<and>
   \<not> isValidRoomId ''abc123'' \<and> validate_spec ''abc123''"
  by code_simp

text \<open>
  \<^bold>\<open>C3\<close>, amended: \<open>isValidRoomId\<close> is true exactly when the candidate, as given (no
  case normalisation), is six characters each of which is one of the 36 symbols \<open>A..Z\<close>
  (\<open>I\<close> and \<open>O\<close> included) and \<open>0..9\<close>.
\<close>

theorem isValidRoomId_iff:
  "isValidRoomId roomId \<longleftrightarrow>
     length roomId = 6 \<and> set roomId \<subseteq> set ''ABCDEFGHIJKLMNOPQRSTUVWXYZ0123456789''"
  unfolding isValidRoomId_def ROOM_ID_REGEX_test_def match_repeat_iff
  using class_members by blast

lemma generateRoomId_eq:
  "generateRoomId bytes = map (\<lambda>i. ROOM_ALPHABET ! (unat (bytes i) mod 34)) [0..<6]"
proof -
  have "[0..<6::nat] = [0, 1, 2, 3, 4, 5]" by code_simp
  then show ?thesis by (simp add: generateRoomId_def ROOM_ALPHABET_def)
qed

text \<open>Every position of a generated id depends on the byte at that position alone.\<close>

lemma generateRoomId_nth:
  "i < 6 \<Longrightarrow> generateRoomId bytes ! i = ROOM_ALPHABET ! (unat (bytes i) mod 34)"
  by (simp add: generateRoomId_eq)

text \<open>Every generated id passes the validator.\<close>

lemma isValidRoomId_generateRoomId: "isValidRoomId (generateRoomId bytes)"
proof -
  have "ROOM_ALPHABET ! k \<in> set ''ABCDEFGHIJKLMNOPQRSTUVWXYZ0123456789''" if "k < 34" for k
  proof -
    have "\<forall>k \<in> set [0..<34]. ROOM_ALPHABET ! k \<in> set ''ABCDEFGHIJKLMNOPQRSTUVWXYZ0123456789''"
      by code_simp
    then show ?thesis using that by simp
  qed
  then show ?thesis
    unfolding isValidRoomId_def ROOM_ID_REGEX_test_def match_repeat_iff class_members
    by (auto simp: generateRoomId_eq)
qed

text \<open>\<open>byte_values\<close> lists every byte exactly once.\<close>

lemma byte_values_all: "set byte_values = UNIV \<and> distinct byte_values"
proof
  show "set byte_values = UNIV"
  proof (rule set_eqI, rule iffI)
    fix w :: u8
    assume "w \<in> UNIV"
    have "unat w < 256" using unsigned_less [of w, where 'a = nat] by simp
    moreover have "of_nat (unat w) = w" by simp
    ultimately show "w \<in> set byte_values"
      unfolding byte_values_def set_map set_upt by (metis atLeastLessThan_iff imageI le0)
  qed simp
next
  show "distinct byte_values"
    unfolding byte_values_def distinct_map
  proof
    show "distinct [0..<256]" by simp
    show "inj_on (of_nat :: nat \<Rightarrow> u8) (set [0..<256])"
    proof (rule inj_onI)
      fix x y :: nat
      assume "x \<in> set [0..<256]" "y \<in> set [0..<256]" "(of_nat x :: u8) = of_nat y"
      then have "x < 256" "y < 256" "unat (of_nat x :: u8) = unat (of_nat y :: u8)" by simp_all
      then show "x = y" by (simp add: unat_of_nat)
    qed
  qed
qed


text \<open>
  \<^bold>\<open>C9\<close>: with the byte uniform over its 256 values, each of the 34 symbols would have to
  be the image of \<open>256 / 34\<close> byte values, which is not a whole number. In the code
  \<open>bytes[i] % 34\<close> sends eight byte values to \<open>A\<close> (probability \<open>8/256\<close>) and seven to
  \<open>9\<close> (probability \<open>7/256\<close>): the symbol is not uniform, at position 0 as at every other.
\<close>

theorem generateRoomId_symbol_counts:
  "length byte_values = 256 \<and>
   length (filter (\<lambda>b. generateRoomId (\<lambda>i. b) ! 0 = CHR ''A'') byte_values) = 8 \<and>
   length (filter (\<lambda>b. generateRoomId (\<lambda>i. b) ! 0 = CHR ''9'') byte_values) = 7"
  by code_simp

section \<open>Properties of the signaling relay\<close>

lemma kv_get_snd [simp]: "snd (kv_get now key kv) = kv"
  by (simp add: kv_get_def)

lemma isValidRoomId_AB12CD: "isValidRoomId ''AB12CD''"
  by code_simp

lemma not_isValidRoomId_ab: "\<not> isValidRoomId ''ab''"
  by code_simp

subsection \<open>createRoom\<close>

lemma create_loop_result:
  "attempt \<le> 5 \<Longrightarrow>
   create_loop now rnd existsKey roomId attempt kv =
     (if truthy_opt (fst (kv_get now existsKey kv)) \<and> attempt < 5
      then generateRoomId (rnd 5) else roomId, kv)"
proof (induction now rnd existsKey roomId attempt kv rule: create_loop.induct)
  case (1 now rnd existsKey roomId attempt kv)
  show ?case
  proof (cases "truthy_opt (fst (kv_get now existsKey kv)) \<and> attempt < 5")
    case True
    then have "create_loop now rnd existsKey roomId attempt kv =
        create_loop now rnd existsKey (generateRoomId (rnd (attempt + 1))) (attempt + 1) kv"
      by (subst create_loop.simps) simp
    also have "\<dots> = (if truthy_opt (fst (kv_get now existsKey kv)) \<and> attempt + 1 < 5
      then generateRoomId (rnd 5) else generateRoomId (rnd (attempt + 1)), kv)"
      using "1.IH" True by simp
    also have "\<dots> = (generateRoomId (rnd 5), kv)"
      using True
      by (cases "attempt + 1 < 5")
        (auto simp: le_less Suc_le_eq
          intro!: arg_cong [where f = generateRoomId] arg_cong [where f = rnd])
    finally show ?thesis using True by simp
  next
    case False
    then show ?thesis by (subst create_loop.simps) auto
  qed
qed

text \<open>
  What \<open>POST_create\<close> does: the marker of the first candidate alone decides. If it is
  live, the loop draws five more candidates, tests none of them, and the sixth draw is
  returned; the marker of the returned id is written with the 300-second window.
\<close>

lemma POST_create_result:
  "POST_create now rnd kv =
     (let roomId = (if live now kv (generateRoomId (rnd 0)) then generateRoomId (rnd 5)
                    else generateRoomId (rnd 0))
      in (Response_json (JObj [(''roomId'', JStr roomId)]),
          kv(existsKey_of roomId \<mapsto> (JStr ''1'', now + 300))))"
  by (simp add: POST_create_def create_loop_result live_def existsKey_of_def kv_set_def
      ROOM_TTL_SECONDS_def Let_def)

text \<open>
  \<^bold>\<open>C4\<close>: \<open>createRoom\<close> retries while the \<^emph>\<open>current\<close> candidate has a live marker. With
  the rooms \<open>AAAAAA\<close> and \<open>FFFFFF\<close> live and the draws \<open>AAAAAA\<close>, \<open>BBBBBB\<close>, \<open>CCCCCC\<close>,
  \<open>DDDDDD\<close>, \<open>EEEEEE\<close>, \<open>FFFFFF\<close>, the second candidate is free and the specification's
  \<open>createRoom\<close> returns it; the code tests the marker of \<open>AAAAAA\<close> six times and returns
  \<open>FFFFFF\<close>, the id of a live room.
\<close>

theorem POST_create_tests_first_candidate_only:
  "fst (POST_create 0 (\<lambda>k i. of_nat k)
          (Map.empty(''room:AAAAAA:exists'' \<mapsto> (JStr ''1'', 300),
                     ''room:FFFFFF:exists'' \<mapsto> (JStr ''1'', 300))))
     = Response_json (JObj [(''roomId'', JStr ''FFFFFF'')]) \<and>
   createRoom_spec 0 (\<lambda>k i. of_nat k)
          (Map.empty(''room:AAAAAA:exists'' \<mapsto> (JStr ''1'', 300),
                     ''room:FFFFFF:exists'' \<mapsto> (JStr ''1'', 300)))
     = ''BBBBBB''"
  by code_simp

subsection \<open>publish\<close>

text \<open>
  \<^bold>\<open>C5\<close>: a publish request fails with \<open>Invalid room\<close> (400) when the id fails validation,
  with \<open>Room not found\<close> (404) when the room has no live \<open>exists\<close> marker, and otherwise
  stores the description under the key of its role and the \<open>exists\<close> marker, both
  expiring 300 seconds after the request, and answers \<open>{ok: true}\<close>.
\<close>

theorem publish_cases:
  "(\<not> isValidRoomId roomId \<longrightarrow>
      publish stringify now roomId ty d kv = (Inr (Response ''Invalid room'' 400), kv)) \<and>
   (isValidRoomId roomId \<and> \<not> live now kv roomId \<longrightarrow>
      publish stringify now roomId ty d kv = (Inr (Response ''Room not found'' 404), kv)) \<and>
   (isValidRoomId roomId \<and> live now kv roomId \<longrightarrow>
      publish stringify now roomId ty d kv =
        (Inr (Response_json (JObj [(''ok'', JBool True)])),
         kv(''room:'' @ roomId @ '':'' @ SignalType_name ty \<mapsto>
              (JStr (stringify (description_json d)), now + 300),
            ''room:'' @ roomId @ '':exists'' \<mapsto> (JStr ''1'', now + 300))))"
  by (cases ty)
    (simp_all add: publish_def POST_signal_def SignalPostBody_json_def description_json_def
      live_def existsKey_of_def kv_get_def kv_set_def ROOM_TTL_SECONDS_def Let_def)

theorem publish_cases_witness:
  "publish (\<lambda>j. ''sdp'') 10 ''ab'' Offer \<lparr>sdp_type = ''offer'', sdp = ''v=0''\<rparr> Map.empty
     = (Inr (Response ''Invalid room'' 400), Map.empty) \<and>
   publish (\<lambda>j. ''sdp'') 10 ''AB12CD'' Offer \<lparr>sdp_type = ''offer'', sdp = ''v=0''\<rparr>
       (Map.empty(''room:AB12CD:exists'' \<mapsto> (JStr ''1'', 10)))
     = (Inr (Response ''Room not found'' 404),
        Map.empty(''room:AB12CD:exists'' \<mapsto> (JStr ''1'', 10))) \<and>
   publish (\<lambda>j. ''sdp'') 10 ''AB12CD'' Answer \<lparr>sdp_type = ''answer'', sdp = ''v=0''\<rparr>
       (Map.empty(''room:AB12CD:exists'' \<mapsto> (JStr ''1'', 11)))
     = (Inr (Response_json (JObj [(''ok'', JBool True)])),
        Map.empty(''room:AB12CD:answer'' \<mapsto> (JStr ''sdp'', 310),
                  ''room:AB12CD:exists'' \<mapsto> (JStr ''1'', 310)))"
proof -
  have l: "live 10 (Map.empty(''room:AB12CD:exists'' \<mapsto> (JStr ''1'', 11))) ''AB12CD''"
    by (simp add: live_def kv_get_def existsKey_of_def truthy_opt_def)
  have nl: "\<not> live 10 (Map.empty(''room:AB12CD:exists'' \<mapsto> (JStr ''1'', 10))) ''AB12CD''"
    by (simp add: live_def kv_get_def existsKey_of_def truthy_opt_def)
  show ?thesis
    using
      publish_cases [of "''ab''" "\<lambda>j. ''sdp''" 10 Offer
         "\<lparr>sdp_type = ''offer'', sdp = ''v=0''\<rparr>" Map.empty]
      publish_cases [of "''AB12CD''" "\<lambda>j. ''sdp''" 10 Offer
         "\<lparr>sdp_type = ''offer'', sdp = ''v=0''\<rparr>"
         "Map.empty(''room:AB12CD:exists'' \<mapsto> (JStr ''1'', 10))"]
      publish_cases [of "''AB12CD''" "\<lambda>j. ''sdp''" 10 Answer
         "\<lparr>sdp_type = ''answer'', sdp = ''v=0''\<rparr>"
         "Map.empty(''room:AB12CD:exists'' \<mapsto> (JStr ''1'', 11))"]
      isValidRoomId_AB12CD not_isValidRoomId_ab l nl
    by (simp add: fun_upd_twist)
qed

text \<open>
  The handler's two further guards reject a body whose \<^verbatim>\<open>type\<close> is neither role or whose
  \<^verbatim>\<open>data\<close> is not a non-null object; a typed request never meets them.
\<close>

lemma POST_signal_invalid_payload:
  "isValidRoomId roomId \<Longrightarrow> live now kv roomId \<Longrightarrow>
   POST_signal stringify now roomId
       (Some (JObj [(''type'', JStr ''offer''), (''data'', JNull)])) kv
     = (Inr (Response ''Invalid payload'' 400), kv)"
  by (simp add: POST_signal_def live_def existsKey_of_def kv_get_def Let_def)

subsection \<open>poll\<close>

text \<open>
  The handler with \<^verbatim>\<open>safeParse\<close>: on a live room it always answers with a JSON body; a
  stored string that does not parse reads as an absent value; with the dedicated keys
  empty, the fields of the legacy record are returned.
\<close>

lemma GET_safeParse_ok:
  "isValidRoomId roomId \<Longrightarrow> live now kv roomId \<Longrightarrow>
   \<exists>offer answer. GET_safeParse parse now roomId kv =
      (Inr (Response_json (JObj [(''offer'', offer), (''answer'', answer)])), kv)"
  by (simp add: GET_safeParse_def live_def existsKey_of_def kv_get_def Let_def)

lemma safeParse_unparsable:
  "parse s = None \<Longrightarrow> safeParse parse (Some (JStr s)) = safeParse parse None"
  by (simp add: safeParse_def)

lemma GET_safeParse_legacy:
  assumes "isValidRoomId roomId" "live now kv roomId"
    and "fst (kv_get now (''room:'' @ roomId @ '':offer'') kv) = None"
    and "fst (kv_get now (''room:'' @ roomId @ '':answer'') kv) = None"
    and "fst (kv_get now (''room:'' @ roomId) kv) = Some (JStr s)" "s \<noteq> []"
    and "parse s = Some (JObj [(''offer'', offer), (''answer'', answer)])"
  shows "GET_safeParse parse now roomId kv =
      (Inr (Response_json (JObj [(''offer'', offer), (''answer'', answer)])), kv)"
  using assms
  by (simp add: GET_safeParse_def live_def existsKey_of_def Let_def safeParse_def
      optional_prop_def coalesce_def split_beta)

text \<open>
  \<^bold>\<open>C6\<close>: on a live room, poll falls back to the legacy combined record when the dedicated
  keys are empty, and reports a stored value that does not parse as \<^verbatim>\<open>null\<close>, never as an
  error. The handler with \<^verbatim>\<open>safeParse\<close> does both. The other handler, on the room
  \<open>AB12CD\<close> holding only a legacy record with an offer, answers \<^verbatim>\<open>{offer: null, answer: null}\<close>;
  and on the room holding under its offer key a string that \<^verbatim>\<open>JSON.parse\<close> rejects, it
  leaves with \<^verbatim>\<open>SyntaxError\<close>.
\<close>

theorem GET_JSON_parse_no_fallback_and_throws:
  "GET_JSON_parse parse toString 0 ''AB12CD''
     (Map.empty(''room:AB12CD:exists'' \<mapsto> (JStr ''1'', 300),
                ''room:AB12CD'' \<mapsto>
                  (JObj [(''offer'', JObj [(''type'', JStr ''offer''), (''sdp'', JStr ''v=0'')]),
                         (''answer'', JNull)], 300)))
   = (Inr (Response_json (JObj [(''offer'', JNull), (''answer'', JNull)])),
      Map.empty(''room:AB12CD:exists'' \<mapsto> (JStr ''1'', 300),
                ''room:AB12CD'' \<mapsto>
                  (JObj [(''offer'', JObj [(''type'', JStr ''offer''), (''sdp'', JStr ''v=0'')]),
                         (''answer'', JNull)], 300))) \<and>
   GET_safeParse parse 0 ''AB12CD''
     (Map.empty(''room:AB12CD:exists'' \<mapsto> (JStr ''1'', 300),
                ''room:AB12CD'' \<mapsto>
                  (JObj [(''offer'', JObj [(''type'', JStr ''offer''), (''sdp'', JStr ''v=0'')]),
                         (''answer'', JNull)], 300)))
   = (Inr (Response_json
             (JObj [(''offer'', JObj [(''type'', JStr ''offer''), (''sdp'', JStr ''v=0'')]),
                    (''answer'', JNull)])),
      Map.empty(''room:AB12CD:exists'' \<mapsto> (JStr ''1'', 300),
                ''room:AB12CD'' \<mapsto>
                  (JObj [(''offer'', JObj [(''type'', JStr ''offer''), (''sdp'', JStr ''v=0'')]),
                         (''answer'', JNull)], 300))) \<and>
   fst (GET_JSON_parse (\<lambda>s. None) toString 0 ''AB12CD''
     (Map.empty(''room:AB12CD:exists'' \<mapsto> (JStr ''1'', 300),
                ''room:AB12CD:offer'' \<mapsto> (JStr ''{'', 300))))
   = Inl SyntaxError \<and>
   fst (GET_safeParse (\<lambda>s. None) 0 ''AB12CD''
     (Map.empty(''room:AB12CD:exists'' \<mapsto> (JStr ''1'', 300),
                ''room:AB12CD:offer'' \<mapsto> (JStr ''{'', 300))))
   = Inr (Response_json (JObj [(''offer'', JNull), (''answer'', JNull)]))"
  using isValidRoomId_AB12CD
  by (simp add: GET_JSON_parse_def GET_safeParse_def kv_get_def Let_def truthy_opt_def
      parse_or_null_def JSON_parse_value_def safeParse_def optional_prop_def coalesce_def)

text \<open>
  \<^bold>\<open>C10\<close>: a poll leaves the store as it found it, whatever the request and the store: it
  writes nothing and moves no expiry time. Both poll handlers are covered.
\<close>

theorem GET_leaves_store_unchanged:
  "snd (GET_safeParse parse now roomId kv) = kv \<and>
   snd (GET_JSON_parse parse toString now roomId kv) = kv"
  by (simp add: GET_safeParse_def GET_JSON_parse_def kv_get_def Let_def split: sum.splits)

section \<open>Properties of the chunked transfer\<close>

subsection \<open>What the sender emits\<close>

lemma CHUNK_SIZE_pos: "0 < CHUNK_SIZE"
  by (simp add: CHUNK_SIZE_def)

lemma ceil_step:
  assumes "0 < C" "0 < (n::nat)"
  shows "(n + C - 1) div C = Suc ((n - min C n + C - 1) div C)"
proof -
  have shift: "(m + C) div C = Suc (m div C)" for m
    using assms(1) by (simp add: div_add_self2)
  have "n + C - 1 = (n - 1) + C" using assms(2) by simp
  then have key: "(n + C - 1) div C = Suc ((n - 1) div C)"
    by (simp only: shift)
  show ?thesis
  proof (cases "C \<le> n")
    case True
    then have "n - min C n + C - 1 = n - 1" by (simp add: min_def)
    then show ?thesis by (simp only: key)
  next
    case False
    then have "n - min C n + C - 1 = C - 1" by (simp add: min_def)
    moreover have "(C - 1) div C = 0" "(n - 1) div C = 0" using False assms by simp_all
    ultimately show ?thesis by (simp only: key)
  qed
qed

lemma sendLoop_sent:
  "offset l \<le> length (file_bytes f) \<Longrightarrow>
   \<exists>frames.
      sent (loop_channel (sendLoop f l)) = sent (loop_channel l) @ map Binary frames \<and>
      concat frames = drop (offset l) (file_bytes f) \<and>
      (\<forall>b \<in> set frames. 0 < length b \<and> length b \<le> CHUNK_SIZE) \<and>
      length frames = (length (file_bytes f) - offset l + CHUNK_SIZE - 1) div CHUNK_SIZE \<and>
      readyState (loop_channel (sendLoop f l)) = readyState (loop_channel l) \<and>
      loop_bytesSent (sendLoop f l) =
        (if offset l < length (file_bytes f) then length (file_bytes f) else loop_bytesSent l)"
proof (induction f l rule: sendLoop.induct)
  case (1 f l)
  show ?case
  proof (cases "offset l < length (file_bytes f)")
    case False
    then have "sendLoop f l = l" by (subst sendLoop.simps) simp
    moreover have "(length (file_bytes f) - offset l + CHUNK_SIZE - 1) div CHUNK_SIZE = 0"
      using False CHUNK_SIZE_pos by simp
    ultimately show ?thesis using False "1.prems" by (intro exI [of _ "[]"]) simp
  next
    case True
    define buffer where "buffer = take CHUNK_SIZE (drop (offset l) (file_bytes f))"
    define l' where "l' = loop_body f l"
    have step: "sendLoop f l = sendLoop f l'"
      using True by (subst sendLoop.simps) (simp add: l'_def)
    have len: "length buffer = min CHUNK_SIZE (length (file_bytes f) - offset l)"
      by (simp add: buffer_def min_def)
    have pos: "0 < length buffer" using True CHUNK_SIZE_pos by (simp add: len)
    have off': "offset l' = offset l + length buffer"
      by (simp add: l'_def loop_body_def Let_def buffer_def)
    have le': "offset l' \<le> length (file_bytes f)" using True by (simp add: off' len)
    have sent': "sent (loop_channel l') = sent (loop_channel l) @ [Binary buffer]"
      by (simp add: l'_def loop_body_def Let_def buffer_def channel_send_def)
    have rs': "readyState (loop_channel l') = readyState (loop_channel l)"
      by (simp add: l'_def loop_body_def Let_def channel_send_def)
    have bs': "loop_bytesSent l' = offset l'"
      by (simp add: l'_def loop_body_def Let_def)
    from "1.IH" [OF True] le' obtain frames where
      fr: "sent (loop_channel (sendLoop f l')) = sent (loop_channel l') @ map Binary frames"
        "concat frames = drop (offset l') (file_bytes f)"
        "\<forall>b \<in> set frames. 0 < length b \<and> length b \<le> CHUNK_SIZE"
        "length frames = (length (file_bytes f) - offset l' + CHUNK_SIZE - 1) div CHUNK_SIZE"
        "readyState (loop_channel (sendLoop f l')) = readyState (loop_channel l')"
        "loop_bytesSent (sendLoop f l') =
           (if offset l' < length (file_bytes f) then length (file_bytes f) else loop_bytesSent l')"
      unfolding l'_def by blast
    have cat: "concat (buffer # frames) = drop (offset l) (file_bytes f)"
    proof -
      have "drop (offset l') (file_bytes f) = drop (length buffer) (drop (offset l) (file_bytes f))"
        by (simp add: off' add.commute)
      also have "\<dots> = drop CHUNK_SIZE (drop (offset l) (file_bytes f))"
        by (simp add: len min_def)
      finally have "concat frames = drop CHUNK_SIZE (drop (offset l) (file_bytes f))"
        using fr(2) by simp
      then have "concat (buffer # frames) =
          take CHUNK_SIZE (drop (offset l) (file_bytes f)) @
          drop CHUNK_SIZE (drop (offset l) (file_bytes f))"
        by (simp add: buffer_def)
      then show ?thesis by (simp only: append_take_drop_id)
    qed
    have cnt: "length (buffer # frames) =
        (length (file_bytes f) - offset l + CHUNK_SIZE - 1) div CHUNK_SIZE"
    proof -
      define n where "n = length (file_bytes f) - offset l"
      have n': "length (file_bytes f) - offset l' = n - min CHUNK_SIZE n"
        by (simp add: off' len n_def)
      have "0 < n" using True by (simp add: n_def)
      from ceil_step [OF CHUNK_SIZE_pos this]
      have "(n + CHUNK_SIZE - 1) div CHUNK_SIZE = Suc (length frames)"
        by (simp only: fr(4) n')
      then show ?thesis by (simp add: n_def)
    qed
    have bsent: "loop_bytesSent (sendLoop f l') = length (file_bytes f)"
      using fr(6) bs' le' by (simp split: if_splits)
    have ne: "buffer \<noteq> []" using pos by auto
    have small: "length buffer \<le> CHUNK_SIZE" by (simp add: len)
    show ?thesis
      apply (rule exI [of _ "buffer # frames"])
      using fr(1,3,5) sent' rs' cat cnt bsent True ne small by (simp add: step)
  qed
qed

lemma emitted_eq:
  "\<exists>frames.
     emitted f =
       Text (Some (Meta (file_name f) (length (file_bytes f))
               (if file_type f = [] then ''application/octet-stream'' else file_type f)))
       # map Binary frames @ [Text (Some Done)] \<and>
     concat frames = file_bytes f \<and>
     (\<forall>b \<in> set frames. 0 < length b \<and> length b \<le> CHUNK_SIZE) \<and>
     length frames = (length (file_bytes f) + CHUNK_SIZE - 1) div CHUNK_SIZE"
proof -
  define ch1 where "ch1 = channel_send \<lparr>readyState = RS_open, sent = []\<rparr>
      (Text (Some (Meta (file_name f) (length (file_bytes f))
         (if file_type f = [] then ''application/octet-stream'' else file_type f))))"
  define l0 where "l0 = \<lparr>offset = 0, chunkCount = 0, loop_channel = ch1, loop_bytesSent = 0\<rparr>"
  have "offset l0 \<le> length (file_bytes f)" by (simp add: l0_def)
  from sendLoop_sent [OF this] obtain frames where
    fr: "sent (loop_channel (sendLoop f l0)) = sent (loop_channel l0) @ map Binary frames"
      "concat frames = drop (offset l0) (file_bytes f)"
      "\<forall>b \<in> set frames. 0 < length b \<and> length b \<le> CHUNK_SIZE"
      "length frames = (length (file_bytes f) - offset l0 + CHUNK_SIZE - 1) div CHUNK_SIZE"
    by blast
  have "emitted f = sent (loop_channel (sendLoop f l0)) @ [Text (Some Done)]"
    by (simp add: emitted_def sendFile_def ready_sender_def Let_def channel_send_def
        l0_def ch1_def)
  then show ?thesis
    using fr by (intro exI [of _ frames]) (simp add: l0_def ch1_def channel_send_def)
qed

lemma payload_length_append [simp]:
  "payload_length (xs @ ys) = payload_length xs + payload_length ys"
  by (induction xs rule: payload_length.induct) auto

lemma payload_length_Binary [simp]: "payload_length (map Binary frames) = length (concat frames)"
  by (induction frames) auto

lemma emitted_shape:
  "\<exists>n m rest. emitted f = Text (Some (Meta n (length (file_bytes f)) m)) # rest \<and>
     (\<forall>d \<in> set rest. d = Text (Some Done) \<or> (\<exists>b. d = Binary b)) \<and>
     payload_length (emitted f) = length (file_bytes f)"
proof -
  from emitted_eq [of f] obtain frames where
    "emitted f =
       Text (Some (Meta (file_name f) (length (file_bytes f))
               (if file_type f = [] then ''application/octet-stream'' else file_type f)))
       # map Binary frames @ [Text (Some Done)]"
    "concat frames = file_bytes f"
    by blast
  then show ?thesis by auto
qed

lemma emitted_abc:
  "emitted \<lparr>file_name = ''a.txt'', file_bytes = [1, 2, 3], file_type = ''text/plain''\<rparr> =
     [Text (Some (Meta ''a.txt'' 3 ''text/plain'')), Binary [1, 2, 3], Text (Some Done)]"
  by (simp add: emitted_def sendFile_def ready_sender_def sendLoop.simps loop_body_def
      channel_send_def CHUNK_SIZE_def Let_def)

lemma sendLoop_states_progress:
  "offset l \<le> length (file_bytes f) \<Longrightarrow> loop_bytesSent l \<le> offset l \<Longrightarrow>
   sorted (map loop_bytesSent (sendLoop_states f l)) \<and>
   (\<forall>l' \<in> set (sendLoop_states f l).
      loop_bytesSent l \<le> loop_bytesSent l' \<and> loop_bytesSent l' \<le> length (file_bytes f))"
proof (induction f l rule: sendLoop_states.induct)
  case (1 f l)
  show ?case
  proof (cases "offset l < length (file_bytes f)")
    case False
    then have "sendLoop_states f l = [l]" by (subst sendLoop_states.simps) simp
    then show ?thesis using "1.prems" by simp
  next
    case True
    define l' where "l' = loop_body f l"
    have st: "sendLoop_states f l = l # sendLoop_states f l'"
      using True by (subst sendLoop_states.simps) (simp add: l'_def)
    have off': "offset l' = offset l + min CHUNK_SIZE (length (file_bytes f) - offset l)"
      by (simp add: l'_def loop_body_def Let_def min_def)
    have bs': "loop_bytesSent l' = offset l'"
      by (simp add: l'_def loop_body_def Let_def)
    have le': "offset l' \<le> length (file_bytes f)" using True by (simp add: off')
    have "loop_bytesSent l' \<le> offset l'" by (simp add: bs')
    from "1.IH" [OF True, folded l'_def, OF le' this]
    have IH: "sorted (map loop_bytesSent (sendLoop_states f l'))"
      "\<forall>x \<in> set (sendLoop_states f l').
         loop_bytesSent l' \<le> loop_bytesSent x \<and> loop_bytesSent x \<le> length (file_bytes f)"
      by simp_all
    have up: "loop_bytesSent l \<le> loop_bytesSent l'"
      using "1.prems" by (simp add: bs' off')
    show ?thesis
      using IH up "1.prems" by (auto simp: st)
  qed
qed


subsection \<open>What the receiver does with it\<close>

lemma messages_of_append [simp]: "messages_of (xs @ ys) = messages_of xs @ messages_of ys"
  by (induction xs rule: messages_of.induct) auto

lemma receiver_run_snoc [simp]:
  "receiver_run r (evs @ [ev]) = receiver_step (receiver_run r evs) ev"
  by (simp add: receiver_run_def)

lemma receiver_run_Nil [simp]: "receiver_run r [] = r"
  by (simp add: receiver_run_def)

lemma receiver_run_Cons [simp]: "receiver_run r (ev # evs) = receiver_run (receiver_step r ev) evs"
  by (simp add: receiver_run_def)

lemma receiver_run_append: "receiver_run r (xs @ ys) = receiver_run (receiver_run r xs) ys"
  by (simp add: receiver_run_def)

lemma picker_settled_fields [simp]:
  "bytesReceived (picker_settled r ok) = bytesReceived r"
  "fileMeta (picker_settled r ok) = fileMeta r"
  "downloadUrl (picker_settled r ok) = downloadUrl r"
  "closure_fileMeta (picker_settled r ok) = closure_fileMeta r"
  by (simp_all add: picker_settled_def split: list.splits)

text \<open>
  The handler of a channel keeps its closure, and the effect that follows \<open>meta\<close> sets the
  displayed \<open>fileMeta\<close> back to \<^verbatim>\<open>null\<close>: a page without \<open>fileMeta\<close> stays without it.
\<close>

lemma step_closure [simp]: "closure_fileMeta (receiver_step r ev) = closure_fileMeta r"
  by (simp add: receiver_step_def handleDataMessage_def handleReceiveDone_def effect_rerun_def
      connect_begin_def cleanup_def Let_def
      split: event.splits message_data.splits option.splits control.splits)

lemma step_fileMeta:
  "fileMeta r = None \<Longrightarrow> fileMeta (receiver_step r ev) = None"
  by (simp add: receiver_step_def handleDataMessage_def handleReceiveDone_def effect_rerun_def
      connect_begin_def cleanup_def Let_def
      split: event.splits message_data.splits option.splits control.splits)

lemma step_downloadUrl:
  "closure_fileMeta r = None \<Longrightarrow> downloadUrl r = None \<Longrightarrow> downloadUrl (receiver_step r ev) = None"
  by (simp add: receiver_step_def handleDataMessage_def handleReceiveDone_def effect_rerun_def
      connect_begin_def cleanup_def Let_def
      split: event.splits message_data.splits option.splits control.splits)

lemma run_closure [simp]: "closure_fileMeta (receiver_run r evs) = closure_fileMeta r"
  by (induction evs rule: rev_induct) simp_all

lemma run_fileMeta: "fileMeta r = None \<Longrightarrow> fileMeta (receiver_run r evs) = None"
  by (induction evs rule: rev_induct) (simp_all add: step_fileMeta)

text \<open>
  On the channel opened at page load \<^verbatim>\<open>handleReceiveDone\<close> never builds the Blob: whatever
  is delivered, in whatever order, the page has no download.
\<close>

lemma run_downloadUrl:
  "downloadUrl (receiver_run (waiting_receiver picker) evs) = None"
proof (induction evs rule: rev_induct)
  case Nil
  show ?case by (simp add: waiting_receiver_def)
next
  case (snoc ev evs)
  have "closure_fileMeta (receiver_run (waiting_receiver picker) evs) = None"
    by (simp add: waiting_receiver_def)
  from step_downloadUrl [OF this snoc.IH] show ?case by simp
qed

lemma messages_of_Message [simp]: "messages_of (map Message ms) = ms"
  by (induction ms) auto

lemma messages_of_session [simp]: "messages_of (session_events f dialog) = emitted f"
proof (cases dialog)
  case None
  then show ?thesis by (simp add: session_events_def)
next
  case (Some p)
  obtain n ok where p: "p = (n, ok)" by (cases p)
  let ?ms = "map Message (emitted f)"
  have "messages_of (take n ?ms @ [PickerSettled ok] @ drop n ?ms) =
      messages_of (take n ?ms) @ messages_of (drop n ?ms)"
    by simp
  also have "\<dots> = messages_of (take n ?ms @ drop n ?ms)"
    by (simp only: messages_of_append)
  also have "\<dots> = emitted f"
    by (simp only: append_take_drop_id messages_of_Message)
  finally show ?thesis using Some p by (simp only: session_events_def option.case prod.case)
qed

lemma session_prefix: "prefix (messages_of (take k (session_events f dialog))) (emitted f)"
proof -
  have "messages_of (take k (session_events f dialog)) @
        messages_of (drop k (session_events f dialog)) = emitted f"
    by (simp only: messages_of_append [symmetric] append_take_drop_id messages_of_session)
  then show ?thesis by (metis prefixI)
qed

lemma prefix_payload: "prefix xs ys \<Longrightarrow> payload_length xs \<le> payload_length ys"
  by (auto simp: prefix_def)

lemma run_binary_memory:
  "writableRef r = None \<Longrightarrow>
   receiver_run r (map (\<lambda>b. Message (Binary b)) frames) =
     r\<lparr>chunksRef := chunksRef r @ frames,
        bytesReceived := bytesReceived r + length (concat frames)\<rparr>"
proof (induction frames arbitrary: r)
  case Nil
  then show ?case by simp
next
  case (Cons b frames)
  have "writableRef (receiver_step r (Message (Binary b))) = None"
    using Cons.prems by (simp add: receiver_step_def handleDataMessage_def)
  from Cons.IH [OF this] show ?case
    using Cons.prems by (simp add: receiver_step_def handleDataMessage_def)
qed

lemma run_binary_sink:
  "writableRef r = Some w \<Longrightarrow> \<not> closed w \<Longrightarrow>
   receiver_run r (map (\<lambda>b. Message (Binary b)) frames) =
     r\<lparr>writableRef := Some (w\<lparr>written := written w @ concat frames\<rparr>),
        bytesReceived := bytesReceived r + length (concat frames)\<rparr>"
proof (induction frames arbitrary: r w)
  case Nil
  then show ?case by simp
next
  case (Cons b frames)
  have "writableRef (receiver_step r (Message (Binary b))) = Some (w\<lparr>written := written w @ b\<rparr>)"
    "\<not> closed (w\<lparr>written := written w @ b\<rparr>)"
    using Cons.prems by (simp_all add: receiver_step_def handleDataMessage_def)
  from Cons.IH [OF this] show ?case
    using Cons.prems by (simp add: receiver_step_def handleDataMessage_def)
qed

lemma step_exact:
  "sink_open r \<Longrightarrow> closure_fileMeta r = None \<Longrightarrow>
   (\<And>n s m. ev = Message (Text (Some (Meta n s m))) \<Longrightarrow> bytesReceived r = 0) \<Longrightarrow>
   bytesReceived (receiver_step r ev) = bytesReceived r + payload_length (messages_of [ev]) \<and>
   (ev \<noteq> Message (Text (Some Done)) \<longrightarrow> sink_open (receiver_step r ev))"
  by (cases ev)
    (auto simp: sink_open_def receiver_step_def handleDataMessage_def handleReceiveDone_def
      picker_settled_def effect_rerun_def connect_begin_def cleanup_def Let_def
      split: message_data.splits option.splits control.splits list.splits)

lemma step_settled_counter:
  "bytesReceived (receiver_step r (PickerSettled ok)) = bytesReceived r"
  by (simp add: receiver_step_def)

text \<open>
  In a run over the messages of a transfer, from a page that has counted nothing, the
  counter is at every point the number of payload bytes handled so far.
\<close>

lemma run_counter_exact:
  assumes r0: "sink_open r0" "closure_fileMeta r0 = None" "bytesReceived r0 = 0"
  shows "prefix (messages_of evs)
           (Text (Some (Meta n s m)) # map Binary frames @ [Text (Some Done)]) \<Longrightarrow>
     bytesReceived (receiver_run r0 evs) = payload_length (messages_of evs) \<and>
     (Text (Some Done) \<notin> set (messages_of evs) \<longrightarrow> sink_open (receiver_run r0 evs))"
proof (induction evs rule: rev_induct)
  case Nil
  then show ?case using r0 by simp
next
  case (snoc ev evs)
  let ?trace = "Text (Some (Meta n s m)) # map Binary frames @ [Text (Some Done)]"
  have pre: "prefix (messages_of evs) ?trace"
    using snoc.prems by (auto simp: prefix_def)
  note IH = snoc.IH [OF pre]
  have cl: "closure_fileMeta (receiver_run r0 evs) = None" using r0 by simp
  show ?case
  proof (cases "Text (Some Done) \<in> set (messages_of evs)")
    case False
    then have op: "sink_open (receiver_run r0 evs)" using IH by simp
    have first: "bytesReceived (receiver_run r0 evs) = 0"
      if ev: "ev = Message (Text (Some (Meta n' s' m')))" for n' s' m'
    proof (cases "messages_of evs")
      case Nil
      then show ?thesis using IH by simp
    next
      case (Cons d ds)
      txt \<open>A second \<open>meta\<close> would stand where the trace has a frame or \<open>done\<close>.\<close>
      have "prefix (d # ds @ [Text (Some (Meta n' s' m'))]) ?trace"
        using snoc.prems ev Cons by simp
      then have "prefix (ds @ [Text (Some (Meta n' s' m'))]) (map Binary frames @ [Text (Some Done)])"
        by simp
      then obtain zs where
        zs: "map Binary frames @ [Text (Some Done)] = ds @ Text (Some (Meta n' s' m')) # zs"
        by (auto simp: prefix_def)
      have "Text (Some (Meta n' s' m')) \<in> set (ds @ Text (Some (Meta n' s' m')) # zs)"
        by simp
      then have "Text (Some (Meta n' s' m')) \<in> set (map Binary frames @ [Text (Some Done)])"
        by (simp only: zs)
      then show ?thesis by auto
    qed
    from step_exact [OF op cl first, of ev] show ?thesis using IH False
      by (cases ev) auto
  next
    case True
    txt \<open>\<open>done\<close> has been seen; it is the last message of the trace, so none can follow.\<close>
    have "messages_of evs = ?trace"
    proof -
      from pre obtain zs where zs: "?trace = messages_of evs @ zs"
        by (auto simp: prefix_def)
      show ?thesis
      proof (cases zs rule: rev_cases)
        case Nil
        then show ?thesis using zs by simp
      next
        case (snoc ys y)
        then have "Text (Some (Meta n s m)) # map Binary frames = messages_of evs @ ys"
          using zs by simp
        then have "set (messages_of evs) \<subseteq> set (Text (Some (Meta n s m)) # map Binary frames)"
          by (metis set_append Un_upper1)
        then show ?thesis using True by auto
      qed
    qed
    then have "messages_of [ev] = []"
      using snoc.prems by (auto simp: prefix_def)
    then obtain ok where "ev = PickerSettled ok" by (cases ev) auto
    then show ?thesis using IH True by (simp add: step_settled_counter)
  qed
qed

text \<open>
  Whatever the moment at which the save dialog settles, the counter ends at the size of
  the file once every message of the transfer has been handled.
\<close>

lemma transfer_counter:
  assumes "messages_of evs = emitted f"
  shows "bytesReceived (receiver_run (waiting_receiver picker) evs) = length (file_bytes f)"
proof -
  from emitted_eq [of f] obtain frames where
    em: "emitted f =
       Text (Some (Meta (file_name f) (length (file_bytes f))
               (if file_type f = [] then ''application/octet-stream'' else file_type f)))
       # map Binary frames @ [Text (Some Done)]"
    and cat: "concat frames = file_bytes f"
    by blast
  have r0: "sink_open (waiting_receiver picker)" "closure_fileMeta (waiting_receiver picker) = None"
    "bytesReceived (waiting_receiver picker) = 0"
    by (simp_all add: sink_open_def waiting_receiver_def)
  have "prefix (messages_of evs) (emitted f)" using assms by simp
  then have "bytesReceived (receiver_run (waiting_receiver picker) evs) =
      payload_length (messages_of evs)"
    unfolding em using run_counter_exact [OF r0] by blast
  then show ?thesis using assms em cat by simp
qed

text \<open>
  At every point of a transfer session (the file \<open>f\<close>, the save dialog settling as
  \<open>dialog\<close> says, the first \<open>k\<close> events handled) the receiver's counter is the number of
  payload bytes handled so far, at most the size of the file, and the page displays no
  \<open>fileMeta\<close>.
\<close>

lemma session_counter:
  "bytesReceived (receiver_run (waiting_receiver picker) (take k (session_events f dialog)))
     = payload_length (messages_of (take k (session_events f dialog))) \<and>
   payload_length (messages_of (take k (session_events f dialog))) \<le> length (file_bytes f) \<and>
   fileMeta (receiver_run (waiting_receiver picker) (take k (session_events f dialog))) = None"
proof -
  let ?evs = "take k (session_events f dialog)"
  from emitted_eq [of f] obtain frames where
    em: "emitted f =
       Text (Some (Meta (file_name f) (length (file_bytes f))
               (if file_type f = [] then ''application/octet-stream'' else file_type f)))
       # map Binary frames @ [Text (Some Done)]"
    and cat: "concat frames = file_bytes f"
    by blast
  have r0: "sink_open (waiting_receiver picker)" "closure_fileMeta (waiting_receiver picker) = None"
    "bytesReceived (waiting_receiver picker) = 0"
    by (simp_all add: sink_open_def waiting_receiver_def)
  have pre: "prefix (messages_of ?evs) (emitted f)" by (rule session_prefix)
  then have "bytesReceived (receiver_run (waiting_receiver picker) ?evs) =
      payload_length (messages_of ?evs)"
    unfolding em using run_counter_exact [OF r0] by blast
  moreover have "payload_length (messages_of ?evs) \<le> length (file_bytes f)"
    using prefix_payload [OF pre] em cat by simp
  moreover have "fileMeta (receiver_run (waiting_receiver picker) ?evs) = None"
    by (rule run_fileMeta) (simp add: waiting_receiver_def)
  ultimately show ?thesis by simp
qed

text \<open>
  When the save dialog settles before the first frame is delivered (with a stream or
  without), or is never opened, the receiver ends with the bytes of the frames in order:
  in the closed stream, or in the in-memory sequence. The in-memory sequence stays where
  it is: \<^verbatim>\<open>handleReceiveDone\<close> reads the \<^verbatim>\<open>fileMeta\<close> of its closure, which is \<^verbatim>\<open>null\<close>, and
  builds no download.
\<close>

lemma receiver_ends_with_frames:
  "pre = [] \<or> pre = [PickerSettled ok] \<Longrightarrow>
   r = receiver_run (waiting_receiver picker)
     (Message (Text (Some (Meta name size' mime)))
        # pre @ map (\<lambda>b. Message (Binary b)) frames @ [Message (Text (Some Done))]) \<Longrightarrow>
   status r = S_completed \<and> bytesReceived r = length (concat frames) \<and>
   downloadUrl r = None \<and> downloadName r = None \<and>
   (case writableRef r of
      Some w \<Rightarrow> written w = concat frames \<and> closed w \<and> chunksRef r = []
    | None \<Rightarrow> chunksRef r = frames)"
  by (cases picker; cases ok; auto simp add: receiver_run_append run_binary_memory run_binary_sink receiver_step_def
      handleDataMessage_def handleReceiveDone_def picker_settled_def waiting_receiver_def
      effect_rerun_def connect_begin_def cleanup_def Let_def)


text \<open>
  \<^bold>\<open>C1\<close>: the sender emits \<open>meta\<close>, then \<open>ceil(S/C)\<close> frames of at most \<open>C\<close> bytes whose
  concatenation is the file, then \<open>done\<close> (\<open>emitted_eq\<close>), and the receiver's counter
  ends at \<open>S\<close> (\<open>transfer_counter\<close>); the bytes are in the closed stream when the save
  dialog settles with a stream before the first frame (\<open>receiver_ends_with_frames\<close>).
  They are not when it settles later: the frames delivered while the dialog is open
  (\<open>frames1\<close>) go to the in-memory sequence, the frames delivered after it (\<open>frames2\<close>) to
  the stream, and on \<open>done\<close> the stream is closed holding \<open>frames2\<close> alone, while the
  in-memory sequence is never turned into a download. So it is in the session of the
  3-byte file \<open>a.txt\<close> whose dialog is answered after the frame has been delivered: the
  stream is closed empty. (Without a stream the bytes stay in the in-memory sequence and
  no download is built from them: \<open>run_downloadUrl\<close>.)
\<close>

theorem receiver_loses_frames_received_before_sink:
  "receiver_run (waiting_receiver True)
     (Message (Text (Some (Meta name size' mime)))
        # map (\<lambda>b. Message (Binary b)) frames1
        @ PickerSettled True
        # map (\<lambda>b. Message (Binary b)) frames2
        @ [Message (Text (Some Done))])
   = (waiting_receiver True)
       \<lparr>status := S_completed,
        bytesReceived := length (concat frames1) + length (concat frames2),
        chunksRef := frames1,
        writableRef := Some \<lparr>written = concat frames2, closed = True\<rparr>\<rparr> \<and>
   receiver_run (waiting_receiver True)
     (session_events \<lparr>file_name = ''a.txt'', file_bytes = [1, 2, 3], file_type = ''text/plain''\<rparr>
        (Some (2, True)))
   = (waiting_receiver True)
       \<lparr>status := S_completed,
        bytesReceived := 3,
        chunksRef := [[1, 2, 3]],
        writableRef := Some \<lparr>written = [], closed = True\<rparr>\<rparr>"
proof
  show "receiver_run (waiting_receiver True)
     (Message (Text (Some (Meta name size' mime)))
        # map (\<lambda>b. Message (Binary b)) frames1
        @ PickerSettled True
        # map (\<lambda>b. Message (Binary b)) frames2
        @ [Message (Text (Some Done))])
   = (waiting_receiver True)
       \<lparr>status := S_completed,
        bytesReceived := length (concat frames1) + length (concat frames2),
        chunksRef := frames1,
        writableRef := Some \<lparr>written = concat frames2, closed = True\<rparr>\<rparr>"
    by (simp add: receiver_run_append run_binary_memory run_binary_sink receiver_step_def
        handleDataMessage_def handleReceiveDone_def picker_settled_def waiting_receiver_def
        effect_rerun_def connect_begin_def cleanup_def Let_def)
next
  show "receiver_run (waiting_receiver True)
     (session_events \<lparr>file_name = ''a.txt'', file_bytes = [1, 2, 3], file_type = ''text/plain''\<rparr>
        (Some (2, True)))
   = (waiting_receiver True)
       \<lparr>status := S_completed,
        bytesReceived := 3,
        chunksRef := [[1, 2, 3]],
        writableRef := Some \<lparr>written = [], closed = True\<rparr>\<rparr>"
    by (simp add: session_events_def emitted_abc receiver_step_def handleDataMessage_def
        handleReceiveDone_def picker_settled_def waiting_receiver_def
        effect_rerun_def connect_begin_def cleanup_def Let_def)
qed

text \<open>
  \<^bold>\<open>C2\<close>, as the specification states it: a binary frame delivered before \<open>meta\<close> or after
  \<open>done\<close> is a protocol violation surfaced to the session, and is not processed as
  payload. In the code the frame delivered before \<open>meta\<close> is appended to the in-memory
  sequence and counted, and so is the frame delivered after \<open>done\<close>; status and error stay
  as they were.
\<close>

theorem binary_frame_outside_envelope_is_payload:
  "status (handleDataMessage (waiting_receiver False) (Binary [1, 2, 3])) = S_waiting \<and>
   error (handleDataMessage (waiting_receiver False) (Binary [1, 2, 3])) = None \<and>
   chunksRef (handleDataMessage (waiting_receiver False) (Binary [1, 2, 3])) = [[1, 2, 3]] \<and>
   bytesReceived (handleDataMessage (waiting_receiver False) (Binary [1, 2, 3])) = 3 \<and>
   status (receiver_run (waiting_receiver False)
      [Message (Text (Some (Meta ''a.txt'' 1 ''text/plain''))), Message (Binary [1]),
       Message (Text (Some Done)), Message (Binary [2])]) = S_completed \<and>
   error (receiver_run (waiting_receiver False)
      [Message (Text (Some (Meta ''a.txt'' 1 ''text/plain''))), Message (Binary [1]),
       Message (Text (Some Done)), Message (Binary [2])]) = None \<and>
   chunksRef (receiver_run (waiting_receiver False)
      [Message (Text (Some (Meta ''a.txt'' 1 ''text/plain''))), Message (Binary [1]),
       Message (Text (Some Done)), Message (Binary [2])]) = [[1], [2]] \<and>
   bytesReceived (receiver_run (waiting_receiver False)
      [Message (Text (Some (Meta ''a.txt'' 1 ''text/plain''))), Message (Binary [1]),
       Message (Text (Some Done)), Message (Binary [2])]) = 2"
  by (simp add: receiver_step_def handleDataMessage_def handleReceiveDone_def
      waiting_receiver_def effect_rerun_def connect_begin_def cleanup_def Let_def)

text \<open>
  \<^bold>\<open>C2\<close>, amended: in every state of the receiver (before \<open>meta\<close>, between \<open>meta\<close> and
  \<open>done\<close>, after \<open>done\<close>) a binary frame leaves status, error and file metadata as they
  were: no frame is a protocol violation. With no stream the frame is appended to the
  in-memory sequence and the counter advances by its length; with an open stream it is
  written to the stream and the counter advances by its length; with a stream that
  \<open>done\<close> has closed, the write is rejected and the state stays as it was.
\<close>

theorem handleDataMessage_Binary:
  "status (handleDataMessage r (Binary chunk)) = status r \<and>
   error (handleDataMessage r (Binary chunk)) = error r \<and>
   fileMeta (handleDataMessage r (Binary chunk)) = fileMeta r \<and>
   (writableRef r = None \<longrightarrow>
      chunksRef (handleDataMessage r (Binary chunk)) = chunksRef r @ [chunk] \<and>
      bytesReceived (handleDataMessage r (Binary chunk)) = bytesReceived r + length chunk) \<and>
   (\<forall>w. writableRef r = Some w \<and> \<not> closed w \<longrightarrow>
      writableRef (handleDataMessage r (Binary chunk)) = Some (w\<lparr>written := written w @ chunk\<rparr>) \<and>
      chunksRef (handleDataMessage r (Binary chunk)) = chunksRef r \<and>
      bytesReceived (handleDataMessage r (Binary chunk)) = bytesReceived r + length chunk) \<and>
   (\<forall>w. writableRef r = Some w \<and> closed w \<longrightarrow> handleDataMessage r (Binary chunk) = r)"
  by (simp add: handleDataMessage_def split: option.splits)


theorem handleDataMessage_Binary_witness:
  "chunksRef (handleDataMessage (waiting_receiver False) (Binary [7])) = [[7]] \<and>
   bytesReceived (handleDataMessage (waiting_receiver False) (Binary [7])) = 1 \<and>
   status (handleDataMessage (waiting_receiver False) (Binary [7])) = S_waiting \<and>
   writableRef (handleDataMessage
       ((waiting_receiver True)\<lparr>writableRef := Some \<lparr>written = [1], closed = False\<rparr>\<rparr>) (Binary [7]))
     = Some \<lparr>written = [1, 7], closed = False\<rparr> \<and>
   handleDataMessage
       ((waiting_receiver True)\<lparr>writableRef := Some \<lparr>written = [1], closed = True\<rparr>\<rparr>) (Binary [7])
     = (waiting_receiver True)\<lparr>writableRef := Some \<lparr>written = [1], closed = True\<rparr>\<rparr>"
  using handleDataMessage_Binary [of "waiting_receiver False" "[7]"]
    handleDataMessage_Binary
      [of "(waiting_receiver True)\<lparr>writableRef := Some \<lparr>written = [1], closed = False\<rparr>\<rparr>" "[7]"]
    handleDataMessage_Binary
      [of "(waiting_receiver True)\<lparr>writableRef := Some \<lparr>written = [1], closed = True\<rparr>\<rparr>" "[7]"]
  by (simp add: waiting_receiver_def)


section \<open>Properties of the backpressure wait\<close>

lemma polled_Cons:
  "(\<exists>mid b. e # evs = mid @ IntervalFires b # rest \<and> ev = IntervalFires b \<and> b \<le> L \<and>
      (\<forall>c. IntervalFires c \<in> set mid \<longrightarrow> L < c)) \<longleftrightarrow>
   (if \<exists>a. e = IntervalFires a \<and> a \<le> L then ev = e \<and> rest = evs
    else (\<exists>mid b. evs = mid @ IntervalFires b # rest \<and> ev = IntervalFires b \<and> b \<le> L \<and>
      (\<forall>c. IntervalFires c \<in> set mid \<longrightarrow> L < c)))"
  (is "?A \<longleftrightarrow> ?B")
proof
  assume ?A
  then obtain mid b where m: "e # evs = mid @ IntervalFires b # rest" "ev = IntervalFires b"
    "b \<le> L" "\<forall>c. IntervalFires c \<in> set mid \<longrightarrow> L < c"
    by blast
  show ?B
  proof (cases mid)
    case Nil
    then show ?thesis using m by auto
  next
    case (Cons x xs)
    then have "x = e" "evs = xs @ IntervalFires b # rest" using m(1) by simp_all
    moreover have "\<not> (\<exists>a. e = IntervalFires a \<and> a \<le> L)"
      using m(4) Cons \<open>x = e\<close> by fastforce
    ultimately show ?thesis using m Cons by auto
  qed
next
  assume b: ?B
  show ?A
  proof (cases "\<exists>a. e = IntervalFires a \<and> a \<le> L")
    case True
    then show ?thesis using b by (intro exI [of _ "[]"]) auto
  next
    case False
    from b [unfolded if_not_P [OF False]]
    obtain mid b' where "evs = mid @ IntervalFires b' # rest" "ev = IntervalFires b'"
      "b' \<le> L" "\<forall>c. IntervalFires c \<in> set mid \<longrightarrow> L < c"
      by blast
    then show ?thesis using False
      by (intro exI [of _ "e # mid"] exI [of _ b']) (auto simp: not_le)
  qed
qed

lemma polling_step:
  "polling w \<Longrightarrow>
   (if \<exists>a. e = IntervalFires a \<and> a \<le> BUFFERED_LOW_WATER_MARK
    then settled (wait_step w e)
    else polling (wait_step w e))"
  by (cases e) (auto simp: polling_def Let_def)

lemma polling_run:
  "polling w \<Longrightarrow>
   wait_run w evs = Some (ev, rest) \<longleftrightarrow>
     (\<exists>mid b. evs = mid @ IntervalFires b # rest \<and> ev = IntervalFires b \<and>
        b \<le> BUFFERED_LOW_WATER_MARK \<and>
        (\<forall>c. IntervalFires c \<in> set mid \<longrightarrow> BUFFERED_LOW_WATER_MARK < c))"
proof (induction evs arbitrary: w)
  case Nil
  then show ?case by simp
next
  case (Cons e evs)
  show ?case
  proof (cases "\<exists>a. e = IntervalFires a \<and> a \<le> BUFFERED_LOW_WATER_MARK")
    case True
    then have "settled (wait_step w e)" using polling_step [OF Cons.prems, of e] by simp
    then show ?thesis using True by (simp only: polled_Cons) auto
  next
    case False
    then have p: "polling (wait_step w e)" using polling_step [OF Cons.prems, of e] by simp
    then have "\<not> settled (wait_step w e)" by (simp add: polling_def)
    then show ?thesis using False Cons.IH [OF p] by (simp only: polled_Cons) auto
  qed
qed

lemma polling_after_timeout: "polling (wait_step wait_begin TimeoutFires)"
  by (simp add: polling_def wait_begin_def)

lemma listening_run:
  "wait_run wait_begin evs = Some (ev, rest) \<longleftrightarrow>
     (\<exists>pre b. evs = pre @ BufferedAmountLow b # rest \<and> ev = BufferedAmountLow b \<and>
        TimeoutFires \<notin> set pre \<and> (\<forall>c. BufferedAmountLow c \<notin> set pre)) \<or>
     (\<exists>pre mid b. evs = pre @ TimeoutFires # mid @ IntervalFires b # rest \<and>
        ev = IntervalFires b \<and> b \<le> BUFFERED_LOW_WATER_MARK \<and>
        TimeoutFires \<notin> set pre \<and> (\<forall>c. BufferedAmountLow c \<notin> set pre) \<and>
        (\<forall>c. IntervalFires c \<in> set mid \<longrightarrow> BUFFERED_LOW_WATER_MARK < c))"
  (is "?run evs \<longleftrightarrow> ?low evs \<or> ?poll evs")
proof (induction evs)
  case Nil
  then show ?case by simp
next
  case (Cons e evs)
  show ?case
  proof (cases e)
    case (BufferedAmountLow a)
    have "settled (wait_step wait_begin e)"
      using BufferedAmountLow by (simp add: wait_begin_def onLow_def)
    then have run: "?run (e # evs) \<longleftrightarrow> ev = e \<and> rest = evs" by auto
    have low: "?low (e # evs) \<longleftrightarrow> ev = e \<and> rest = evs"
    proof
      assume "?low (e # evs)"
      then obtain pre b where m: "e # evs = pre @ BufferedAmountLow b # rest"
        "ev = BufferedAmountLow b" "\<forall>c. BufferedAmountLow c \<notin> set pre"
        by blast
      have "pre = []" using m(1,3) BufferedAmountLow by (cases pre) auto
      then show "ev = e \<and> rest = evs" using m by simp
    next
      assume "ev = e \<and> rest = evs"
      then show "?low (e # evs)" using BufferedAmountLow by (intro exI [of _ "[]"]) simp
    qed
    have "\<not> ?poll (e # evs)"
    proof
      assume "?poll (e # evs)"
      then obtain pre mid b where m: "e # evs = pre @ TimeoutFires # mid @ IntervalFires b # rest"
        "\<forall>c. BufferedAmountLow c \<notin> set pre"
        by blast
      then show False using BufferedAmountLow by (cases pre) auto
    qed
    then show ?thesis using run low by blast
  next
    case TimeoutFires
    have "\<not> settled (wait_step wait_begin e)"
      using TimeoutFires by (simp add: wait_begin_def)
    then have "?run (e # evs) \<longleftrightarrow> wait_run (wait_step wait_begin TimeoutFires) evs = Some (ev, rest)"
      using TimeoutFires by simp
    also have "\<dots> \<longleftrightarrow> (\<exists>mid b. evs = mid @ IntervalFires b # rest \<and> ev = IntervalFires b \<and>
        b \<le> BUFFERED_LOW_WATER_MARK \<and>
        (\<forall>c. IntervalFires c \<in> set mid \<longrightarrow> BUFFERED_LOW_WATER_MARK < c))"
      by (rule polling_run [OF polling_after_timeout])
    also have "\<dots> \<longleftrightarrow> ?poll (e # evs)"
    proof
      assume "\<exists>mid b. evs = mid @ IntervalFires b # rest \<and> ev = IntervalFires b \<and>
        b \<le> BUFFERED_LOW_WATER_MARK \<and>
        (\<forall>c. IntervalFires c \<in> set mid \<longrightarrow> BUFFERED_LOW_WATER_MARK < c)"
      then obtain mid b where "evs = mid @ IntervalFires b # rest" "ev = IntervalFires b"
        "b \<le> BUFFERED_LOW_WATER_MARK"
        "\<forall>c. IntervalFires c \<in> set mid \<longrightarrow> BUFFERED_LOW_WATER_MARK < c"
        by blast
      then show "?poll (e # evs)"
        using TimeoutFires by (intro exI [of _ "[]"] exI [of _ mid] exI [of _ b]) simp
    next
      assume "?poll (e # evs)"
      then obtain pre mid b where m: "e # evs = pre @ TimeoutFires # mid @ IntervalFires b # rest"
        "ev = IntervalFires b" "b \<le> BUFFERED_LOW_WATER_MARK" "TimeoutFires \<notin> set pre"
        "\<forall>c. IntervalFires c \<in> set mid \<longrightarrow> BUFFERED_LOW_WATER_MARK < c"
        by blast
      have "pre = []" using m(1,4) TimeoutFires by (cases pre) auto
      then show "\<exists>mid b. evs = mid @ IntervalFires b # rest \<and> ev = IntervalFires b \<and>
        b \<le> BUFFERED_LOW_WATER_MARK \<and>
        (\<forall>c. IntervalFires c \<in> set mid \<longrightarrow> BUFFERED_LOW_WATER_MARK < c)"
        using m by auto
    qed
    finally have run: "?run (e # evs) \<longleftrightarrow> ?poll (e # evs)" .
    have "\<not> ?low (e # evs)"
    proof
      assume "?low (e # evs)"
      then obtain pre b where m: "e # evs = pre @ BufferedAmountLow b # rest"
        "TimeoutFires \<notin> set pre"
        by blast
      then show False using TimeoutFires by (cases pre) auto
    qed
    then show ?thesis using run by blast
  next
    case (IntervalFires a)
    have st: "wait_step wait_begin e = wait_begin" "\<not> settled wait_begin"
      using IntervalFires by (simp_all add: wait_begin_def)
    then have run: "?run (e # evs) \<longleftrightarrow> ?run evs" by simp
    have low: "?low (e # evs) \<longleftrightarrow> ?low evs"
    proof
      assume "?low (e # evs)"
      then obtain pre b where m: "e # evs = pre @ BufferedAmountLow b # rest"
        "ev = BufferedAmountLow b" "TimeoutFires \<notin> set pre" "\<forall>c. BufferedAmountLow c \<notin> set pre"
        by blast
      then obtain pre' where "pre = e # pre'" using IntervalFires by (cases pre) auto
      then show "?low evs" using m by (intro exI [of _ pre'] exI [of _ b]) auto
    next
      assume "?low evs"
      then obtain pre b where "evs = pre @ BufferedAmountLow b # rest"
        "ev = BufferedAmountLow b" "TimeoutFires \<notin> set pre" "\<forall>c. BufferedAmountLow c \<notin> set pre"
        by blast
      then show "?low (e # evs)"
        using IntervalFires by (intro exI [of _ "e # pre"] exI [of _ b]) auto
    qed
    have poll: "?poll (e # evs) \<longleftrightarrow> ?poll evs"
    proof
      assume "?poll (e # evs)"
      then obtain pre mid b where m: "e # evs = pre @ TimeoutFires # mid @ IntervalFires b # rest"
        "ev = IntervalFires b" "b \<le> BUFFERED_LOW_WATER_MARK" "TimeoutFires \<notin> set pre"
        "\<forall>c. BufferedAmountLow c \<notin> set pre"
        "\<forall>c. IntervalFires c \<in> set mid \<longrightarrow> BUFFERED_LOW_WATER_MARK < c"
        by blast
      then obtain pre' where "pre = e # pre'" using IntervalFires by (cases pre) auto
      then show "?poll evs" using m by (intro exI [of _ pre'] exI [of _ mid] exI [of _ b]) auto
    next
      assume "?poll evs"
      then obtain pre mid b where "evs = pre @ TimeoutFires # mid @ IntervalFires b # rest"
        "ev = IntervalFires b" "b \<le> BUFFERED_LOW_WATER_MARK" "TimeoutFires \<notin> set pre"
        "\<forall>c. BufferedAmountLow c \<notin> set pre"
        "\<forall>c. IntervalFires c \<in> set mid \<longrightarrow> BUFFERED_LOW_WATER_MARK < c"
        by blast
      then show "?poll (e # evs)"
        using IntervalFires by (intro exI [of _ "e # pre"] exI [of _ mid] exI [of _ b]) auto
    qed
    show ?thesis using run low poll Cons.IH by blast
  qed
qed


lemma waitForBufferedLow_resume:
  "waitForBufferedLow amount evs = Some (res, rest) \<Longrightarrow>
   (case res of
      Immediately a \<Rightarrow> a = amount \<and> amount \<le> BUFFERED_HIGH_WATER_MARK
    | After ev \<Rightarrow>
        BUFFERED_HIGH_WATER_MARK < amount \<and> ev \<in> set evs \<and>
        ((\<exists>b. ev = BufferedAmountLow b) \<or>
         (\<exists>b. ev = IntervalFires b \<and> b \<le> BUFFERED_LOW_WATER_MARK)))"
proof (cases "amount \<le> BUFFERED_HIGH_WATER_MARK")
  case True
  assume "waitForBufferedLow amount evs = Some (res, rest)"
  then show ?thesis using True by (auto simp: waitForBufferedLow_def)
next
  case False
  assume "waitForBufferedLow amount evs = Some (res, rest)"
  then obtain ev where res: "res = After ev" and run: "wait_run wait_begin evs = Some (ev, rest)"
    using False by (auto simp: waitForBufferedLow_def split: option.splits)
  from run [unfolded listening_run] show ?thesis
    using False res by auto
qed

lemma sendLoop_env_resumes:
  "\<forall>res \<in> set (fst (sendLoop_env f l env)).
     (case res of
        Immediately a \<Rightarrow> a \<le> BUFFERED_HIGH_WATER_MARK
      | After ev \<Rightarrow>
          (\<exists>b. ev = BufferedAmountLow b) \<or>
          (\<exists>b. ev = IntervalFires b \<and> b \<le> BUFFERED_LOW_WATER_MARK))"
proof (induction env arbitrary: l)
  case Nil
  then show ?case by simp
next
  case (Cons p env)
  obtain amount evs where p: "p = (amount, evs)" by (cases p)
  show ?case
  proof (cases "offset l < length (file_bytes f)")
    case False
    then show ?thesis by (simp add: p)
  next
    case True
    show ?thesis
    proof (cases "waitForBufferedLow amount evs")
      case None
      then show ?thesis using True by (simp add: p)
    next
      case (Some a)
      obtain res rest where a: "a = (res, rest)" by (cases a)
      from waitForBufferedLow_resume [OF Some [unfolded a]]
      have "case res of
          Immediately a \<Rightarrow> a \<le> BUFFERED_HIGH_WATER_MARK
        | After ev \<Rightarrow>
            (\<exists>b. ev = BufferedAmountLow b) \<or>
            (\<exists>b. ev = IntervalFires b \<and> b \<le> BUFFERED_LOW_WATER_MARK)"
        by (cases res) auto
      then show ?thesis
        using True Some a Cons.IH [of "loop_body f l"]
        by (simp add: p split: prod.splits)
    qed
  qed
qed







text \<open>
  A run that reaches the end of the file ends with the loop variables \<open>sendLoop\<close>
  computes: the waits delay the passes and change nothing else.
\<close>

lemma sendLoop_env_complete:
  "length (file_bytes f) \<le> offset (snd (sendLoop_env f l env)) \<Longrightarrow>
   snd (sendLoop_env f l env) = sendLoop f l"
proof (induction env arbitrary: l)
  case Nil
  then show ?case by (subst sendLoop.simps) simp
next
  case (Cons p env)
  obtain amount evs where p: "p = (amount, evs)" by (cases p)
  show ?case
  proof (cases "offset l < length (file_bytes f)")
    case False
    then show ?thesis by (subst sendLoop.simps) (simp add: p)
  next
    case True
    show ?thesis
    proof (cases "waitForBufferedLow amount evs")
      case None
      then show ?thesis using True Cons.prems by (simp add: p)
    next
      case (Some a)
      obtain res rest where a: "a = (res, rest)" by (cases a)
      have snd_eq: "snd (sendLoop_env f l (p # env)) = snd (sendLoop_env f (loop_body f l) env)"
        using True Some a by (simp add: p split: prod.splits)
      then have "snd (sendLoop_env f (loop_body f l) env) = sendLoop f (loop_body f l)"
        using Cons.IH [of "loop_body f l"] Cons.prems by simp
      moreover have "sendLoop f l = sendLoop f (loop_body f l)"
        using True by (subst sendLoop.simps) simp
      ultimately show ?thesis using snd_eq by simp
    qed
  qed
qed





end
